theory Spec2Isabelle
  imports Main "HOL-Library.Multiset"
begin

section \<open>The deal watcher of powergate (deals/module/dealwatcher/dealwatcher.go)\<close>

subsection \<open>Data model\<close>

text \<open>
  A proposal identifier is go-cid's \<^verbatim>\<open>Cid\<close>, a struct around one string, compared
  byte-wise; its zero value holds the empty string.
\<close>

datatype cid = Cid (str: string)

definition zero_cid :: cid where
  "zero_cid = Cid []"

text \<open>
  A value of type \<^verbatim>\<open>chan<- struct{}\<close> is either nil or a reference to a channel object;
  \<^verbatim>\<open>ch == ich\<close> compares the references.
\<close>

datatype chan = NilChan | ChanRef nat

datatype error = ErrNotFound | ErrActiveSubscription

type_synonym registry = "cid \<rightharpoonup> chan list"

text \<open>
  The fields of \<^verbatim>\<open>DealWatcher\<close> that the methods read and write. \<open>closeCtx\<close> is True once
  \<^verbatim>\<open>closeCancel\<close> has cancelled the context, \<open>closeFinished\<close> is True once that channel has
  been closed. The mutex \<^verbatim>\<open>lock\<close> is not a field of the model: \<open>Subscribe\<close>, \<open>Unsubscribe\<close> and
  the fanout of the background task hold it from their first access of \<open>subs\<close> to their
  last, so each of them is one atomic change of the registry. The mutex \<^verbatim>\<open>closeLock\<close> is
  part of the model of \<open>Close\<close> further down. The logger is not modelled in the registry
  calls.
\<close>

record DealWatcher =
  subs :: registry
  closeCtx :: bool
  closeFinished :: bool
  closed :: bool

text \<open>\<^verbatim>\<open>make(map[cid.Cid][]chan<- struct{})\<close> and a fresh context and channel, as in \<^verbatim>\<open>New\<close>.\<close>

definition new_watcher :: DealWatcher where
  "new_watcher = \<lparr>subs = Map.empty, closeCtx = False, closeFinished = False, closed = False\<rparr>"

text \<open>Indexing a Go map at an absent key gives the zero value, the nil slice.\<close>

definition subs_at :: "registry \<Rightarrow> cid \<Rightarrow> chan list" where
  "subs_at m k = (case m k of None \<Rightarrow> [] | Some xs \<Rightarrow> xs)"

subsection \<open>Subscribe\<close>

text \<open>The loop of lines 60 to 64: True when some element of the slice equals \<open>ch\<close>.\<close>

fun scan_active :: "chan \<Rightarrow> chan list \<Rightarrow> bool" where
  "scan_active ch [] = False"
| "scan_active ch (ich # rest) = (if ch = ich then True else scan_active ch rest)"

text \<open>
  The result is the returned error (\<open>None\<close> for nil) and the watcher after the call.
  \<^verbatim>\<open>append\<close> may write into spare capacity of the backing array, which no other slice
  value reaches, so the slice is modelled by the list of its elements.
\<close>

definition Subscribe :: "chan \<Rightarrow> cid \<Rightarrow> DealWatcher \<Rightarrow> error option \<times> DealWatcher" where
  "Subscribe ch proposalCid dw =
     (if scan_active ch (subs_at (subs dw) proposalCid)
      then (Some ErrActiveSubscription, dw)
      else (None, dw\<lparr>subs := (subs dw)(proposalCid \<mapsto> subs_at (subs dw) proposalCid @ [ch])\<rparr>))"

subsection \<open>Unsubscribe\<close>

text \<open>
  The loop of lines 81 to 87, started at index \<open>i\<close>: the first index holding \<open>ch\<close>,
  or \<open>-1\<close>.
\<close>

fun scan_idx :: "chan \<Rightarrow> chan list \<Rightarrow> nat \<Rightarrow> int" where
  "scan_idx ch [] i = -1"
| "scan_idx ch (x # rest) i = (if x = ch then int i else scan_idx ch rest (Suc i))"

text \<open>
  Lines 95 and 96 overwrite slot \<open>idx\<close> with the last element and cut the slice by one.
  Both indices are in range there, since \<open>idx\<close> was found in the slice.
\<close>

definition swap_remove :: "chan list \<Rightarrow> nat \<Rightarrow> chan list" where
  "swap_remove xs idx = take (length xs - 1) (xs[idx := xs ! (length xs - 1)])"

definition Unsubscribe :: "chan \<Rightarrow> cid \<Rightarrow> DealWatcher \<Rightarrow> error option \<times> DealWatcher" where
  "Unsubscribe ch proposalCid dw =
     (case subs dw proposalCid of
        None \<Rightarrow> (Some ErrNotFound, dw)
      | Some xs \<Rightarrow>
          (let idx = scan_idx ch xs 0 in
           if idx = -1 then (Some ErrNotFound, dw)
           else if length xs = 1 then (None, dw\<lparr>subs := (subs dw)(proposalCid := None)\<rparr>)
           else (None, dw\<lparr>subs := (subs dw)(proposalCid \<mapsto> swap_remove xs (nat idx))\<rparr>)))"

subsection \<open>Sequences of registry calls\<close>

datatype call = CallSubscribe chan cid | CallUnsubscribe chan cid

fun do_call :: "call \<Rightarrow> DealWatcher \<Rightarrow> error option \<times> DealWatcher" where
  "do_call (CallSubscribe ch k) dw = Subscribe ch k dw"
| "do_call (CallUnsubscribe ch k) dw = Unsubscribe ch k dw"

fun run_calls :: "call list \<Rightarrow> DealWatcher \<Rightarrow> DealWatcher" where
  "run_calls [] dw = dw"
| "run_calls (c # cs) dw = run_calls cs (snd (do_call c dw))"

text \<open>The invariant of the registry: no entry is empty and no entry repeats a channel.\<close>

definition reg_ok :: "registry \<Rightarrow> bool" where
  "reg_ok m = (\<forall>k xs. m k = Some xs \<longrightarrow> xs \<noteq> [] \<and> distinct xs)"

section \<open>The background task (startDaemon, lines 118 to 185)\<close>

subsection \<open>Subscriber channels\<close>

text \<open>
  The state of one Go channel, with the names of the runtime's \<^verbatim>\<open>hchan\<close>: the number of
  buffered values, the capacity of the buffer, the number of goroutines blocked in a
  receive, and whether the channel has been closed.
\<close>

record hchan =
  qcount :: nat
  dataqsiz :: nat
  recvq :: nat
  hclosed :: bool

type_synonym chan_heap = "nat \<Rightarrow> hchan"

datatype send_result = Sent | NotReady | SendOnClosed

text \<open>
  The statement \<^verbatim>\<open>select { case s <- struct{}{}: default: ... }\<close> of lines 175 to 179. A send
  on a nil channel is never ready; a send on a closed channel panics; otherwise the value
  goes to a blocked receiver or into free buffer space, and if there is neither the
  \<^verbatim>\<open>default\<close> branch runs.
\<close>

fun try_send :: "chan_heap \<Rightarrow> chan \<Rightarrow> send_result \<times> chan_heap" where
  "try_send h NilChan = (NotReady, h)"
| "try_send h (ChanRef r) =
     (if hclosed (h r) then (SendOnClosed, h)
      else if 0 < recvq (h r) then (Sent, h(r := (h r)\<lparr>recvq := recvq (h r) - 1\<rparr>))
      else if qcount (h r) < dataqsiz (h r) then (Sent, h(r := (h r)\<lparr>qcount := qcount (h r) + 1\<rparr>))
      else (NotReady, h))"

subsection \<open>What the task does, as a trace\<close>

text \<open>
  The calls the task makes that are visible outside it, in the order it makes them:
  \<open>Create n\<close> is the \<open>n\<close>-th call of \<^verbatim>\<open>createUpdateChan\<close>, \<open>Cls c\<close> the call of the
  cleanup function of connection \<open>c\<close>, \<open>Sleep n\<close> a \<^verbatim>\<open>time.Sleep\<close> of \<open>n\<close> seconds,
  \<open>Lookup k\<close> the read of \<^verbatim>\<open>dw.subs[k]\<close>, \<open>Send s\<close> a signal delivered to \<open>s\<close>, \<open>Slow s\<close>
  the \<^verbatim>\<open>default\<close> branch for \<open>s\<close> (with its warning), \<open>PanicSend s\<close> the panic of a send
  on the closed channel \<open>s\<close>, and \<open>CloseFinished\<close> is \<^verbatim>\<open>close(dw.closeFinished)\<close>.
\<close>

datatype action =
    Create nat
  | Errorf string
  | Infof string
  | Warnf string
  | Cls nat
  | Sleep nat
  | Lookup cid
  | Send chan
  | Slow chan
  | PanicSend chan
  | CloseFinished

subsection \<open>Creating the updates channel (lines 119 to 130)\<close>

text \<open>
  The client builder \<^verbatim>\<open>dw.cb\<close> and the client's \<^verbatim>\<open>ClientGetDealUpdates\<close> are outside the
  repository: the model takes their joint result at the \<open>n\<close>-th call as a parameter. A
  connection is named by a number, which stands for both the updates channel and the
  cleanup function returned with it.
\<close>

datatype create_result = BuilderErr string | UpdatesErr string | Conn nat

definition createUpdateChan :: "(nat \<Rightarrow> create_result) \<Rightarrow> nat \<Rightarrow> string + nat" where
  "createUpdateChan cb n =
     (case cb n of
        BuilderErr err \<Rightarrow> Inl (''creating lotus client: '' @ err)
      | UpdatesErr err \<Rightarrow> Inl (''creating lotus deal updates channel: '' @ err)
      | Conn c \<Rightarrow> Inr c)"

subsection \<open>The retry loop (lines 155 to 163)\<close>

text \<open>
  The loop has no exit but a successful call, so it need not return: the result \<open>None\<close>
  says that it runs forever. Otherwise the result is the trace \<open>tr\<close> extended by the
  loop's calls, the new connection, and the number of calls made so far.
\<close>

partial_function (option) reconnect ::
  "(nat \<Rightarrow> create_result) \<Rightarrow> nat \<Rightarrow> action list \<Rightarrow> (action list \<times> nat \<times> nat) option" where
  "reconnect cb n tr =
     (case createUpdateChan cb n of
        Inl err \<Rightarrow>
          reconnect cb (Suc n)
            (tr @ [Create n, Warnf (''reconstructing updates channel: '' @ err), Sleep 30])
      | Inr c \<Rightarrow> Some (tr @ [Create n], c, Suc n))"

declare reconnect.simps [code]

subsection \<open>Fanout (lines 166 to 181)\<close>

text \<open>
  The loop over the subscribers. The first component of the result is True when a send
  panicked, which ends the loop there.
\<close>

fun send_loop :: "chan list \<Rightarrow> chan_heap \<Rightarrow> bool \<times> action list \<times> chan_heap" where
  "send_loop [] h = (False, [], h)"
| "send_loop (s # rest) h =
     (case try_send h s of
        (SendOnClosed, h') \<Rightarrow> (True, [PanicSend s], h')
      | (Sent, h') \<Rightarrow> (case send_loop rest h' of (p, tr, h'') \<Rightarrow> (p, Send s # tr, h''))
      | (NotReady, h') \<Rightarrow> (case send_loop rest h' of (p, tr, h'') \<Rightarrow> (p, Slow s # tr, h'')))"

definition fanout :: "registry \<Rightarrow> cid \<Rightarrow> chan_heap \<Rightarrow> bool \<times> action list \<times> chan_heap" where
  "fanout m k h =
     (case m k of
        None \<Rightarrow> (False, [Lookup k], h)
      | Some xs \<Rightarrow> (case send_loop xs h of (p, tr, h') \<Rightarrow> (p, Lookup k # tr, h')))"

subsection \<open>One pass through the loop body (lines 143 to 182)\<close>

text \<open>Of an update record \<^verbatim>\<open>api.DealInfo\<close> the task reads the proposal identifier only.\<close>

datatype DealInfo = DealInfo (ProposalCid: cid)

definition zero_DealInfo :: DealInfo where
  "zero_DealInfo = DealInfo zero_cid"

text \<open>
  What the \<^verbatim>\<open>select\<close> of line 143 yields: the context is done; a record arrived; or the
  updates channel is closed, and then the flag says whether \<^verbatim>\<open>dw.closeCtx.Err() != nil\<close>
  at line 148. Which of these happens, and when, is decided by the other goroutines and
  by the remote node, so it is the input of the model.
\<close>

datatype event = CtxDone | Recv DealInfo | RecvClosed bool

text \<open>
  The variables of the goroutine: the connection that \<^verbatim>\<open>updates\<close> and \<^verbatim>\<open>cls\<close> belong to,
  the number of calls of \<^verbatim>\<open>createUpdateChan\<close> made so far, and the subscribers' channels.
\<close>

record daemon =
  conn :: nat
  calls :: nat
  heap :: chan_heap

text \<open>
  How a pass ends: with \<^verbatim>\<open>return\<close>; with a panic; never (the retry loop runs forever);
  or at the end of the body, so that the next pass starts.
\<close>

datatype step =
    Return "action list"
  | Panic "action list" daemon
  | Never "action list"
  | Next "action list" daemon

text \<open>Lines 166 to 181 for the record \<open>di\<close>, after the actions \<open>tr\<close> of the same pass.\<close>

definition process :: "registry \<Rightarrow> DealInfo \<Rightarrow> action list \<Rightarrow> daemon \<Rightarrow> step" where
  "process m di tr st =
     (case fanout m (ProposalCid di) (heap st) of
        (True, ftr, h') \<Rightarrow> Panic (tr @ ftr) (st\<lparr>heap := h'\<rparr>)
      | (False, ftr, h') \<Rightarrow> Next (tr @ ftr) (st\<lparr>heap := h'\<rparr>))"

text \<open>
  A receive from the closed channel leaves the zero record in \<open>di\<close>; after the retry loop
  the body goes on at line 166 with that record.
\<close>

fun iteration :: "(nat \<Rightarrow> create_result) \<Rightarrow> registry \<Rightarrow> event \<Rightarrow> daemon \<Rightarrow> step" where
  "iteration cb m CtxDone st = Return []"
| "iteration cb m (Recv di) st = process m di [] st"
| "iteration cb m (RecvClosed ctx_err) st =
     (if ctx_err then Return []
      else
        (case reconnect cb (calls st)
                [Warnf ''updates channel closed unexpectedly'', Cls (conn st)] of
           None \<Rightarrow> Never [Warnf ''updates channel closed unexpectedly'', Cls (conn st)]
         | Some (tr, c, n) \<Rightarrow> process m zero_DealInfo tr (st\<lparr>conn := c, calls := n\<rparr>)))"

subsection \<open>The loop and the goroutine\<close>

text \<open>
  The two deferred calls of lines 139 and 140 run in reverse order when the function
  returns or panics: the cleanup function that \<^verbatim>\<open>cls\<close> holds at that moment, then
  \<^verbatim>\<open>close(dw.closeFinished)\<close>.
\<close>

definition deferred :: "daemon \<Rightarrow> action list" where
  "deferred st = [Cls (conn st), CloseFinished]"

text \<open>
  How a run ends on a finite list of events: the goroutine returned; the process died in
  a panic; the goroutine is in the retry loop for ever; or the events are used up and
  the goroutine waits in the \<^verbatim>\<open>select\<close>.
\<close>

datatype outcome =
    Exited "action list" chan_heap
  | Crashed "action list"
  | Retrying "action list"
  | Waiting "action list" daemon

fun prepend :: "action list \<Rightarrow> outcome \<Rightarrow> outcome" where
  "prepend tr (Exited tr' h) = Exited (tr @ tr') h"
| "prepend tr (Crashed tr') = Crashed (tr @ tr')"
| "prepend tr (Retrying tr') = Retrying (tr @ tr')"
| "prepend tr (Waiting tr' st) = Waiting (tr @ tr') st"

fun run_loop :: "(nat \<Rightarrow> create_result) \<Rightarrow> registry \<Rightarrow> event list \<Rightarrow> daemon \<Rightarrow> outcome" where
  "run_loop cb m [] st = Waiting [] st"
| "run_loop cb m (e # es) st =
     (case iteration cb m e st of
        Return tr \<Rightarrow> Exited (tr @ deferred st) (heap st)
      | Panic tr st' \<Rightarrow> Crashed (tr @ deferred st')
      | Never tr \<Rightarrow> Retrying tr
      | Next tr st' \<Rightarrow> prepend tr (run_loop cb m es st'))"

text \<open>
  The goroutine of lines 132 to 184. When the first \<^verbatim>\<open>createUpdateChan\<close> fails it returns
  at line 136, before the \<^verbatim>\<open>defer\<close> statements of lines 139 and 140 have run.
\<close>

definition startDaemon ::
  "(nat \<Rightarrow> create_result) \<Rightarrow> registry \<Rightarrow> chan_heap \<Rightarrow> event list \<Rightarrow> outcome" where
  "startDaemon cb m h es =
     (case createUpdateChan cb 0 of
        Inl err \<Rightarrow> Exited [Create 0, Errorf (''creating initial updates chan: '' @ err)] h
      | Inr c \<Rightarrow>
          prepend [Create 0, Infof ''deal watcher created'']
            (run_loop cb m es \<lparr>conn = c, calls = 1, heap = h\<rparr>))"

subsection \<open>Notions used to state the properties of the task\<close>

fun chan_closed :: "chan_heap \<Rightarrow> chan \<Rightarrow> bool" where
  "chan_closed h NilChan = False"
| "chan_closed h (ChanRef r) = hclosed (h r)"

text \<open>An open channel accepts a value at once when a receiver waits or the buffer has room.\<close>

fun can_accept :: "chan_heap \<Rightarrow> chan \<Rightarrow> bool" where
  "can_accept h NilChan = False"
| "can_accept h (ChanRef r) =
     (\<not> hclosed (h r) \<and> (0 < recvq (h r) \<or> qcount (h r) < dataqsiz (h r)))"

text \<open>The channels that a trace tried to send to, in order.\<close>

fun attempts :: "action list \<Rightarrow> chan list" where
  "attempts [] = []"
| "attempts (Send c # tr) = c # attempts tr"
| "attempts (Slow c # tr) = c # attempts tr"
| "attempts (PanicSend c # tr) = c # attempts tr"
| "attempts (a # tr) = attempts tr"

definition attempt_of :: "chan_heap \<Rightarrow> chan \<Rightarrow> action" where
  "attempt_of h c = (if can_accept h c then Send c else Slow c)"

text \<open>The \<open>n\<close>-th call of \<^verbatim>\<open>createUpdateChan\<close> fails.\<close>

definition fails :: "(nat \<Rightarrow> create_result) \<Rightarrow> nat \<Rightarrow> bool" where
  "fails cb n = (case createUpdateChan cb n of Inl err \<Rightarrow> True | Inr c \<Rightarrow> False)"

text \<open>One failed round of the retry loop, and \<open>k\<close> such rounds from call \<open>n\<close> on.\<close>

definition failed_attempt :: "(nat \<Rightarrow> create_result) \<Rightarrow> nat \<Rightarrow> action list" where
  "failed_attempt cb n =
     (case createUpdateChan cb n of
        Inl err \<Rightarrow> [Create n, Warnf (''reconstructing updates channel: '' @ err), Sleep 30]
      | Inr c \<Rightarrow> [])"

fun retries :: "(nat \<Rightarrow> create_result) \<Rightarrow> nat \<Rightarrow> nat \<Rightarrow> action list" where
  "retries cb n 0 = []"
| "retries cb n (Suc k) = failed_attempt cb n @ retries cb (Suc n) k"

fun step_trace :: "step \<Rightarrow> action list" where
  "step_trace (Return tr) = tr"
| "step_trace (Panic tr st) = tr"
| "step_trace (Never tr) = tr"
| "step_trace (Next tr st) = tr"

definition closed_warning :: "daemon \<Rightarrow> action list" where
  "closed_warning st = [Warnf ''updates channel closed unexpectedly'', Cls (conn st)]"

subsection \<open>Concrete inputs\<close>

text \<open>Two subscribers of \<open>a\<close>, the first of which closed its channel.\<close>

definition closed_first_registry :: registry where
  "closed_first_registry = Map.empty(Cid ''a'' \<mapsto> [ChanRef 1, ChanRef 2])"

definition closed_first_heap :: chan_heap where
  "closed_first_heap =
     (\<lambda>r. \<lparr>qcount = 0, dataqsiz = 1, recvq = 0, hclosed = (r = 1)\<rparr>)"

text \<open>
  Four subscribers of \<open>a\<close>: channel 1 has a full buffer of one, the second is the nil
  channel, channel 2 has an empty buffer of one, channel 3 is unbuffered with a receiver
  waiting.
\<close>

definition full_first_registry :: registry where
  "full_first_registry = Map.empty(Cid ''a'' \<mapsto> [ChanRef 1, NilChan, ChanRef 2, ChanRef 3])"

definition full_first_heap :: chan_heap where
  "full_first_heap =
     (\<lambda>r. \<lparr>qcount = (if r = 1 then 1 else 0), dataqsiz = (if r = 3 then 0 else 1),
           recvq = (if r = 3 then 1 else 0), hclosed = False\<rparr>)"

text \<open>
  A node that accepts the first connection, then refuses one, then fails to open the
  updates stream, then accepts; and a node that refuses every connection.
\<close>

definition flaky_builder :: "nat \<Rightarrow> create_result" where
  "flaky_builder n =
     (if n = 0 then Conn 7
      else if n = 1 then BuilderErr ''refused''
      else if n = 2 then UpdatesErr ''busy''
      else Conn n)"

definition refusing_builder :: "nat \<Rightarrow> create_result" where
  "refusing_builder n = BuilderErr ''refused''"

text \<open>The task after its first connection, and a registry with subscribers of the zero identifier.\<close>

definition connected :: daemon where
  "connected = \<lparr>conn = 7, calls = 1, heap = full_first_heap\<rparr>"

definition zero_registry :: registry where
  "zero_registry = (subs new_watcher)(zero_cid \<mapsto> [ChanRef 1, ChanRef 2])"

section \<open>Close (lines 103 to 116), called from any number of goroutines\<close>

text \<open>
  Where a goroutine stands in \<^verbatim>\<open>Close\<close>: it has not called it; it is about to execute the
  line of that number (104 takes \<^verbatim>\<open>closeLock\<close>, 107 tests \<^verbatim>\<open>dw.closed\<close>, 110 sets it, 112
  calls \<^verbatim>\<open>closeCancel\<close>, 113 receives from \<^verbatim>\<open>closeFinished\<close>); or its call has returned
  the given error.
\<close>

datatype close_pc = NotCalled | L104 | L107 | L110 | L112 | L113 | Returned "error option"

text \<open>What the calls of \<^verbatim>\<open>Close\<close> did, each with the goroutine that did it.\<close>

datatype close_ev = SetClosed nat | Cancel nat | Waited nat | Ret nat "error option"

text \<open>
  The watcher, the goroutine that holds \<^verbatim>\<open>closeLock\<close>, the position of every goroutine,
  and the history of the calls so far.
\<close>

record sys =
  watcher :: DealWatcher
  closeLock :: "nat option"
  pc :: "nat \<Rightarrow> close_pc"
  hist :: "close_ev list"

text \<open>
  One step of goroutine \<open>g\<close>. A goroutine outside \<^verbatim>\<open>Close\<close> calls it. \<^verbatim>\<open>Lock\<close> at line 104
  goes through when the mutex is free and leaves the goroutine where it is otherwise; the
  receive at line 113 goes through when \<^verbatim>\<open>closeFinished\<close> is closed and leaves the goroutine
  where it is otherwise. Each \<^verbatim>\<open>return nil\<close> runs the deferred \<^verbatim>\<open>Unlock\<close>.
\<close>

definition Close_step :: "nat \<Rightarrow> sys \<Rightarrow> sys" where
  "Close_step g s =
     (case pc s g of
        NotCalled \<Rightarrow> s\<lparr>pc := (pc s)(g := L104)\<rparr>
      | Returned e \<Rightarrow> s\<lparr>pc := (pc s)(g := L104)\<rparr>
      | L104 \<Rightarrow>
          (case closeLock s of
             None \<Rightarrow> s\<lparr>closeLock := Some g, pc := (pc s)(g := L107)\<rparr>
           | Some holder \<Rightarrow> s)
      | L107 \<Rightarrow>
          (if closed (watcher s)
           then s\<lparr>closeLock := None, pc := (pc s)(g := Returned None),
                  hist := hist s @ [Ret g None]\<rparr>
           else s\<lparr>pc := (pc s)(g := L110)\<rparr>)
      | L110 \<Rightarrow>
          s\<lparr>watcher := (watcher s)\<lparr>closed := True\<rparr>, pc := (pc s)(g := L112),
             hist := hist s @ [SetClosed g]\<rparr>
      | L112 \<Rightarrow>
          s\<lparr>watcher := (watcher s)\<lparr>closeCtx := True\<rparr>, pc := (pc s)(g := L113),
             hist := hist s @ [Cancel g]\<rparr>
      | L113 \<Rightarrow>
          (if closeFinished (watcher s)
           then s\<lparr>closeLock := None, pc := (pc s)(g := Returned None),
                  hist := hist s @ [Waited g, Ret g None]\<rparr>
           else s))"

text \<open>
  The step of the background task that \<^verbatim>\<open>Close\<close> can see: \<^verbatim>\<open>close(dw.closeFinished)\<close>, the
  action \<open>CloseFinished\<close> of the task's trace.
\<close>

definition task_finishes :: "sys \<Rightarrow> sys" where
  "task_finishes s = s\<lparr>watcher := (watcher s)\<lparr>closeFinished := True\<rparr>\<rparr>"

text \<open>
  An interleaving is the list of who moves next. Every execution of any number of
  sequential or concurrent calls of \<^verbatim>\<open>Close\<close> is the run of such a list.
\<close>

datatype turn = Goroutine nat | BackgroundTask

fun exec :: "turn list \<Rightarrow> sys \<Rightarrow> sys" where
  "exec [] s = s"
| "exec (Goroutine g # ts) s = exec ts (Close_step g s)"
| "exec (BackgroundTask # ts) s = exec ts (task_finishes s)"

definition start :: "DealWatcher \<Rightarrow> sys" where
  "start dw = \<lparr>watcher = dw, closeLock = None, pc = (\<lambda>g. NotCalled), hist = []\<rparr>"

subsection \<open>Notions used to state the properties of Close\<close>

text \<open>
  The history of a complete shutdown: goroutine \<open>g\<close> sets the flag, cancels the context,
  receives the completion signal and returns nil; after that the goroutines of \<open>later\<close>
  return nil, one call each, and nothing else happens.
\<close>

definition close_history :: "nat \<Rightarrow> nat list \<Rightarrow> close_ev list" where
  "close_history g later =
     [SetClosed g, Cancel g, Waited g, Ret g None] @ map (\<lambda>g'. Ret g' None) later"

text \<open>The positions at which a goroutine holds \<^verbatim>\<open>closeLock\<close>.\<close>

fun in_crit :: "close_pc \<Rightarrow> bool" where
  "in_crit L107 = True"
| "in_crit L110 = True"
| "in_crit L112 = True"
| "in_crit L113 = True"
| "in_crit p = False"

definition lock_ok :: "sys \<Rightarrow> bool" where
  "lock_ok s = (\<forall>g. in_crit (pc s g) = (closeLock s = Some g))"

definition returns_nil :: "sys \<Rightarrow> bool" where
  "returns_nil s = (\<forall>g e. pc s g = Returned e \<longrightarrow> e = None)"

text \<open>
  The four phases of the watcher: running; flag set by \<open>g\<close>; context cancelled by \<open>g\<close>;
  shut down by \<open>g\<close>.
\<close>

definition ph0 :: "sys \<Rightarrow> bool" where
  "ph0 s = (hist s = [] \<and> \<not> closed (watcher s) \<and> \<not> closeCtx (watcher s) \<and>
         (\<forall>g. pc s g \<noteq> L112 \<and> pc s g \<noteq> L113))"

definition ph1 :: "sys \<Rightarrow> nat \<Rightarrow> bool" where
  "ph1 s g = (hist s = [SetClosed g] \<and> closed (watcher s) \<and> \<not> closeCtx (watcher s) \<and>
         pc s g = L112)"

definition ph2 :: "sys \<Rightarrow> nat \<Rightarrow> bool" where
  "ph2 s g = (hist s = [SetClosed g, Cancel g] \<and> closed (watcher s) \<and> closeCtx (watcher s) \<and>
         pc s g = L113)"

definition ph3 :: "sys \<Rightarrow> nat \<Rightarrow> nat list \<Rightarrow> bool" where
  "ph3 s g later = (hist s = close_history g later \<and> closed (watcher s) \<and> closeCtx (watcher s) \<and>
         closeFinished (watcher s) \<and>
         (\<forall>g'. pc s g' \<noteq> L110 \<and> pc s g' \<noteq> L112 \<and> pc s g' \<noteq> L113))"

definition phase :: "sys \<Rightarrow> bool" where
  "phase s = (ph0 s \<or> (\<exists>g. ph1 s g) \<or> (\<exists>g. ph2 s g) \<or> (\<exists>g later. ph3 s g later))"

definition close_inv :: "sys \<Rightarrow> bool" where
  "close_inv s = (lock_ok s \<and> returns_nil s \<and> phase s)"

subsection \<open>Concrete interleavings\<close>


text \<open>The same two callers when the background task never closes \<^verbatim>\<open>closeFinished\<close>.\<close>

definition two_callers_no_signal :: "turn list" where
  "two_callers_no_signal =
     [Goroutine 1, Goroutine 1, Goroutine 1, Goroutine 1, Goroutine 1, Goroutine 1,
      Goroutine 2, Goroutine 2, Goroutine 2, Goroutine 1, Goroutine 2]"

section \<open>Properties of the registry\<close>

lemma scan_active_set: "scan_active ch xs = (ch \<in> set xs)"
  by (induction xs) auto

lemma scan_idx_none: "(scan_idx ch xs i = -1) = (ch \<notin> set xs)"
  by (induction xs arbitrary: i) auto

lemma scan_idx_found:
  "ch \<in> set xs \<Longrightarrow>
     i \<le> nat (scan_idx ch xs i) \<and> nat (scan_idx ch xs i) - i < length xs \<and>
     xs ! (nat (scan_idx ch xs i) - i) = ch \<and> 0 \<le> scan_idx ch xs i"
proof (induction xs arbitrary: i)
  case Nil
  then show ?case by simp
next
  case (Cons x rest)
  show ?case
  proof (cases "x = ch")
    case True
    then show ?thesis by simp
  next
    case False
    with Cons.prems have "ch \<in> set rest" by simp
    from Cons.IH [OF this, of "Suc i"] False show ?thesis
      by (auto simp: Suc_diff_le)
  qed
qed

lemma scan_idx_found0:
  assumes "ch \<in> set xs"
  shows "nat (scan_idx ch xs 0) < length xs" and "xs ! nat (scan_idx ch xs 0) = ch"
  using scan_idx_found [OF assms, of 0] by simp_all

subsection \<open>Swap-remove\<close>

lemma swap_remove_snoc:
  "i \<le> length ys \<Longrightarrow> swap_remove (ys @ [l]) i = (if i < length ys then ys[i := l] else ys)"
  by (auto simp: swap_remove_def list_update_append1)

lemma swap_remove_mset:
  assumes "i < length xs"
  shows "mset (swap_remove xs i) = mset xs - {#xs ! i#}"
proof (cases xs rule: rev_cases)
  case Nil
  with assms show ?thesis by simp
next
  case (snoc ys l)
  with assms have le: "i \<le> length ys" by simp
  show ?thesis
  proof (cases "i < length ys")
    case True
    then have "ys ! i \<in># mset ys" by simp
    with True le snoc show ?thesis
      by (simp add: swap_remove_snoc mset_update nth_append)
  next
    case False
    with le have "i = length ys" by simp
    with snoc show ?thesis by (simp add: swap_remove_snoc)
  qed
qed

lemma swap_remove_distinct:
  assumes "i < length xs" and "distinct xs"
  shows "distinct (swap_remove xs i)"
proof (cases xs rule: rev_cases)
  case Nil
  with assms show ?thesis by simp
next
  case (snoc ys l)
  with assms have le: "i \<le> length ys" and d: "distinct ys" and l: "l \<notin> set ys" by simp_all
  show ?thesis
  proof (cases "i < length ys")
    case True
    with d l have "distinct (ys[i := l])" by (simp add: distinct_list_update)
    with True le snoc show ?thesis by (simp add: swap_remove_snoc)
  next
    case False
    with le d snoc show ?thesis by (simp add: swap_remove_snoc)
  qed
qed

lemma swap_remove_length: "length (swap_remove xs i) = length xs - 1"
  by (simp add: swap_remove_def)

lemma swap_remove_keeps:
  assumes "i < length xs" and "c \<in> set xs" and "c \<noteq> xs ! i"
  shows "c \<in> set (swap_remove xs i)"
proof -
  from assms(2) have "c \<in># mset xs" by simp
  with assms(3) have "c \<in># mset xs - {#xs ! i#}" by (simp add: in_diff_count)
  then have "c \<in># mset (swap_remove xs i)" by (simp add: swap_remove_mset [OF assms(1)])
  then show ?thesis by simp
qed

subsection \<open>What the two calls return and store\<close>

lemma subs_at_Some: "m k = Some xs \<Longrightarrow> subs_at m k = xs"
  by (simp add: subs_at_def)

lemma subs_at_None: "m k = None \<Longrightarrow> subs_at m k = []"
  by (simp add: subs_at_def)

lemma Subscribe_fst:
  "fst (Subscribe ch k dw) =
     (if ch \<in> set (subs_at (subs dw) k) then Some ErrActiveSubscription else None)"
  by (simp add: Subscribe_def scan_active_set)

lemma Subscribe_subs:
  "subs (snd (Subscribe ch k dw)) =
     (if ch \<in> set (subs_at (subs dw) k) then subs dw
      else (subs dw)(k \<mapsto> subs_at (subs dw) k @ [ch]))"
  by (simp add: Subscribe_def scan_active_set)

lemma Unsubscribe_fst:
  "fst (Unsubscribe ch k dw) =
     (if ch \<in> set (subs_at (subs dw) k) then None else Some ErrNotFound)"
  by (auto simp: Unsubscribe_def Let_def subs_at_def scan_idx_none split: option.splits)

lemma Unsubscribe_subs:
  "subs (snd (Unsubscribe ch k dw)) =
     (if ch \<notin> set (subs_at (subs dw) k) then subs dw
      else if length (subs_at (subs dw) k) = 1 then (subs dw)(k := None)
      else (subs dw)(k \<mapsto> swap_remove (subs_at (subs dw) k)
                              (nat (scan_idx ch (subs_at (subs dw) k) 0))))"
  by (auto simp: Unsubscribe_def Let_def subs_at_def scan_idx_none split: option.splits)

lemma Subscribe_reg_ok: "reg_ok (subs dw) \<Longrightarrow> reg_ok (subs (snd (Subscribe ch k dw)))"
  unfolding reg_ok_def Subscribe_subs
  by (auto simp: subs_at_def split: option.splits if_splits)

lemma Unsubscribe_reg_ok:
  assumes "reg_ok (subs dw)"
  shows "reg_ok (subs (snd (Unsubscribe ch k dw)))"
proof (cases "ch \<in> set (subs_at (subs dw) k)")
  case False
  with assms show ?thesis by (simp add: Unsubscribe_subs)
next
  case True
  let ?xs = "subs_at (subs dw) k"
  from True have some: "subs dw k = Some ?xs"
    by (cases "subs dw k") (simp_all add: subs_at_def)
  with assms have d: "distinct ?xs" by (simp add: reg_ok_def)
  from True have i: "nat (scan_idx ch ?xs 0) < length ?xs" by (rule scan_idx_found0)
  show ?thesis
  proof (cases "length ?xs = 1")
    case True
    with \<open>ch \<in> set ?xs\<close> assms show ?thesis
      by (simp add: Unsubscribe_subs reg_ok_def)
  next
    case False
    with i have "swap_remove ?xs (nat (scan_idx ch ?xs 0)) \<noteq> []"
      using swap_remove_length [of ?xs "nat (scan_idx ch ?xs 0)"]
      by (cases "swap_remove ?xs (nat (scan_idx ch ?xs 0))") auto
    moreover have "distinct (swap_remove ?xs (nat (scan_idx ch ?xs 0)))"
      using i d by (rule swap_remove_distinct)
    ultimately show ?thesis
      using False True assms by (simp add: Unsubscribe_subs reg_ok_def)
  qed
qed

lemma do_call_reg_ok: "reg_ok (subs dw) \<Longrightarrow> reg_ok (subs (snd (do_call c dw)))"
  by (cases c) (simp_all add: Subscribe_reg_ok Unsubscribe_reg_ok)

lemma run_calls_reg_ok: "reg_ok (subs dw) \<Longrightarrow> reg_ok (subs (run_calls cs dw))"
  by (induction cs arbitrary: dw) (simp_all add: do_call_reg_ok)

lemma new_watcher_reg_ok: "reg_ok (subs new_watcher)"
  by (simp add: reg_ok_def new_watcher_def)

lemma subs_at_upd [simp]:
  "subs_at (m(k \<mapsto> xs)) k = xs"
  "subs_at (m(k := None)) k = []"
  "k' \<noteq> k \<Longrightarrow> subs_at (m(k' := v)) k = subs_at m k"
  by (simp_all add: subs_at_def)

lemma subs_at_mem_Some: "c \<in> set (subs_at m k) \<Longrightarrow> m k = Some (subs_at m k)"
  by (cases "m k") (simp_all add: subs_at_def)

lemma do_call_keeps_member:
  assumes "ch \<in> set (subs_at (subs dw) k)" and "c \<noteq> CallUnsubscribe ch k"
  shows "ch \<in> set (subs_at (subs (snd (do_call c dw))) k)"
proof (cases c)
  case (CallSubscribe ch' k')
  with assms(1) show ?thesis
    by (cases "k' = k") (simp_all add: Subscribe_subs)
next
  case (CallUnsubscribe ch' k')
  show ?thesis
  proof (cases "k' = k")
    case False
    with assms(1) CallUnsubscribe show ?thesis
      by (simp add: Unsubscribe_subs)
  next
    case True
    with assms(2) CallUnsubscribe have ne: "ch' \<noteq> ch" by simp
    let ?xs = "subs_at (subs dw) k"
    show ?thesis
    proof (cases "ch' \<in> set ?xs")
      case False
      with assms(1) CallUnsubscribe True show ?thesis
        by (simp add: Unsubscribe_subs)
    next
      case in_xs: True
      then have i: "nat (scan_idx ch' ?xs 0) < length ?xs"
        and at: "?xs ! nat (scan_idx ch' ?xs 0) = ch'"
        by (rule scan_idx_found0)+
      from in_xs assms(1) ne have len: "length ?xs \<noteq> 1"
        by (cases ?xs) auto
      from i assms(1) have "ch \<in> set (swap_remove ?xs (nat (scan_idx ch' ?xs 0)))"
        by (rule swap_remove_keeps) (simp add: at ne [symmetric])
      with in_xs len CallUnsubscribe True show ?thesis
        by (simp add: Unsubscribe_subs)
    qed
  qed
qed

lemma run_calls_keeps_member:
  "ch \<in> set (subs_at (subs dw) k) \<Longrightarrow> CallUnsubscribe ch k \<notin> set cs \<Longrightarrow>
     ch \<in> set (subs_at (subs (run_calls cs dw)) k)"
proof (induction cs arbitrary: dw)
  case Nil
  then show ?case by simp
next
  case (Cons c cs)
  from Cons.prems have "c \<noteq> CallUnsubscribe ch k" by auto
  with Cons.prems(1) have "ch \<in> set (subs_at (subs (snd (do_call c dw))) k)"
    by (rule do_call_keeps_member)
  moreover from Cons.prems have "CallUnsubscribe ch k \<notin> set cs" by simp
  ultimately show ?case using Cons.IH by simp
qed

lemma Subscribe_member_after:
  "ch \<in> set (subs_at (subs (snd (Subscribe ch k dw))) k)"
  by (simp add: Subscribe_subs)

subsection \<open>Uniqueness of a subscription\<close>

text \<open>
  Claim C1. In every state of the watcher, \<open>Subscribe\<close> of a channel that is already in the
  identifier's list returns \<open>ErrActiveSubscription\<close>. After a successful \<open>Subscribe\<close> of a
  pair, and after any further calls among which there is no \<open>Unsubscribe\<close> of that pair,
  a second \<open>Subscribe\<close> of the pair returns \<open>ErrActiveSubscription\<close>.
\<close>

theorem Subscribe_rejects_active_pair:
  "(ch \<in> set (subs_at (subs dw) k) \<longrightarrow>
      fst (Subscribe ch k dw) = Some ErrActiveSubscription) \<and>
   (fst (Subscribe ch k dw) = None \<and> CallUnsubscribe ch k \<notin> set cs \<longrightarrow>
      fst (Subscribe ch k (run_calls cs (snd (Subscribe ch k dw)))) = Some ErrActiveSubscription)"
proof (intro conjI impI)
  assume "ch \<in> set (subs_at (subs dw) k)"
  then show "fst (Subscribe ch k dw) = Some ErrActiveSubscription"
    by (simp add: Subscribe_fst)
next
  assume "fst (Subscribe ch k dw) = None \<and> CallUnsubscribe ch k \<notin> set cs"
  then have "CallUnsubscribe ch k \<notin> set cs" by simp
  with Subscribe_member_after
  have "ch \<in> set (subs_at (subs (run_calls cs (snd (Subscribe ch k dw)))) k)"
    by (rule run_calls_keeps_member)
  then show "fst (Subscribe ch k (run_calls cs (snd (Subscribe ch k dw)))) = Some ErrActiveSubscription"
    by (simp add: Subscribe_fst)
qed

text \<open>The equations that evaluate the registry calls on concrete watchers.\<close>

lemmas reg_eval = Subscribe_def Unsubscribe_def subs_at_def swap_remove_def new_watcher_def
  Let_def

text \<open>
  Both parts at work: channel 1 is subscribed to \<open>a\<close> in a new watcher; a second
  \<open>Subscribe\<close> is refused at once, and also after channel 2 came and went on \<open>a\<close> and an
  \<open>Unsubscribe\<close> of channel 1 on another identifier failed.
\<close>

theorem Subscribe_rejects_active_pair_witness:
  "ChanRef 1 \<in> set (subs_at (subs (snd (Subscribe (ChanRef 1) (Cid ''a'') new_watcher))) (Cid ''a'')) \<and>
   fst (Subscribe (ChanRef 1) (Cid ''a'') (snd (Subscribe (ChanRef 1) (Cid ''a'') new_watcher)))
     = Some ErrActiveSubscription \<and>
   fst (Subscribe (ChanRef 1) (Cid ''a'') new_watcher) = None \<and>
   CallUnsubscribe (ChanRef 1) (Cid ''a'') \<notin>
     set [CallSubscribe (ChanRef 2) (Cid ''a''), CallUnsubscribe (ChanRef 2) (Cid ''a''),
          CallUnsubscribe (ChanRef 1) (Cid ''b'')] \<and>
   fst (Subscribe (ChanRef 1) (Cid ''a'')
         (run_calls [CallSubscribe (ChanRef 2) (Cid ''a''), CallUnsubscribe (ChanRef 2) (Cid ''a''),
                     CallUnsubscribe (ChanRef 1) (Cid ''b'')]
            (snd (Subscribe (ChanRef 1) (Cid ''a'') new_watcher))))
     = Some ErrActiveSubscription"
  using Subscribe_rejects_active_pair
          [of "ChanRef 1" "snd (Subscribe (ChanRef 1) (Cid ''a'') new_watcher)" "Cid ''a''" "[]"]
        Subscribe_rejects_active_pair
          [of "ChanRef 1" new_watcher "Cid ''a''"
              "[CallSubscribe (ChanRef 2) (Cid ''a''), CallUnsubscribe (ChanRef 2) (Cid ''a''),
                CallUnsubscribe (ChanRef 1) (Cid ''b'')]"]
  by (simp add: reg_eval)

subsection \<open>Removal\<close>

text \<open>
  Claim C2. In every state of the watcher, \<open>Unsubscribe\<close> returns \<open>ErrNotFound\<close> exactly when
  the identifier has no entry or the channel is not in the identifier's list. Otherwise it
  returns nil, the identifier's list loses one occurrence of the channel and nothing else
  (as a multiset: swap-remove may reorder it), the entries of the other identifiers are
  untouched, and an identifier whose list became empty has no entry any more.
\<close>

theorem Unsubscribe_removes_one:
  "(fst (Unsubscribe ch k dw) = Some ErrNotFound \<longleftrightarrow>
      (subs dw k = None \<or> ch \<notin> set (subs_at (subs dw) k))) \<and>
   (fst (Unsubscribe ch k dw) \<noteq> Some ErrNotFound \<longrightarrow>
      fst (Unsubscribe ch k dw) = None \<and>
      mset (subs_at (subs (snd (Unsubscribe ch k dw))) k) = mset (subs_at (subs dw) k) - {#ch#} \<and>
      (\<forall>k'. k' \<noteq> k \<longrightarrow> subs (snd (Unsubscribe ch k dw)) k' = subs dw k') \<and>
      (subs_at (subs (snd (Unsubscribe ch k dw))) k = [] \<longrightarrow>
         subs (snd (Unsubscribe ch k dw)) k = None))"
proof -
  let ?xs = "subs_at (subs dw) k"
  let ?dw' = "snd (Unsubscribe ch k dw)"
  have a: "fst (Unsubscribe ch k dw) = Some ErrNotFound \<longleftrightarrow>
      (subs dw k = None \<or> ch \<notin> set ?xs)"
    by (cases "subs dw k") (simp_all add: Unsubscribe_fst subs_at_def)
  have b: "fst (Unsubscribe ch k dw) = None \<and>
      mset (subs_at (subs ?dw') k) = mset ?xs - {#ch#} \<and>
      (\<forall>k'. k' \<noteq> k \<longrightarrow> subs ?dw' k' = subs dw k') \<and>
      (subs_at (subs ?dw') k = [] \<longrightarrow> subs ?dw' k = None)"
    if ok: "fst (Unsubscribe ch k dw) \<noteq> Some ErrNotFound"
  proof -
    from ok have mem: "ch \<in> set ?xs" by (simp add: Unsubscribe_fst split: if_splits)
    then have i: "nat (scan_idx ch ?xs 0) < length ?xs"
      and at: "?xs ! nat (scan_idx ch ?xs 0) = ch"
      by (rule scan_idx_found0)+
    have r: "fst (Unsubscribe ch k dw) = None" using mem by (simp add: Unsubscribe_fst)
    have others: "\<forall>k'. k' \<noteq> k \<longrightarrow> subs ?dw' k' = subs dw k'"
      by (simp add: Unsubscribe_subs)
    show ?thesis
    proof (cases "length ?xs = 1")
      case True
      with mem have "?xs = [ch]" by (cases ?xs) auto
      then have "mset ?xs - {#ch#} = {#}" by simp
      moreover from True mem have "subs ?dw' k = None" by (simp add: Unsubscribe_subs)
      ultimately show ?thesis using r others by (simp add: subs_at_None)
    next
      case False
      let ?ys = "swap_remove ?xs (nat (scan_idx ch ?xs 0))"
      from False mem have s: "subs ?dw' k = Some ?ys" by (simp add: Unsubscribe_subs)
      have "mset ?ys = mset ?xs - {#ch#}" using swap_remove_mset [OF i] at by simp
      moreover have "?ys \<noteq> []"
        using False i swap_remove_length [of ?xs "nat (scan_idx ch ?xs 0)"]
        by (cases ?ys) auto
      ultimately show ?thesis using r others s by (simp add: subs_at_Some)
    qed
  qed
  from a b show ?thesis by blast
qed

text \<open>
  Removing channel 1 from the list 1, 2, 3 leaves 3, 2; removing the only subscriber of
  \<open>a\<close> deletes the entry of \<open>a\<close>.
\<close>

theorem Unsubscribe_removes_one_witness:
  "fst (Unsubscribe (ChanRef 1) (Cid ''a'')
          (run_calls [CallSubscribe (ChanRef 1) (Cid ''a''), CallSubscribe (ChanRef 2) (Cid ''a''),
                      CallSubscribe (ChanRef 3) (Cid ''a'')] new_watcher)) \<noteq> Some ErrNotFound \<and>
   subs (snd (Unsubscribe (ChanRef 1) (Cid ''a'')
          (run_calls [CallSubscribe (ChanRef 1) (Cid ''a''), CallSubscribe (ChanRef 2) (Cid ''a''),
                      CallSubscribe (ChanRef 3) (Cid ''a'')] new_watcher))) (Cid ''a'')
     = Some [ChanRef 3, ChanRef 2] \<and>
   mset [ChanRef 3, ChanRef 2] = mset [ChanRef 1, ChanRef 2, ChanRef 3] - {#ChanRef 1#} \<and>
   fst (Unsubscribe (ChanRef 1) (Cid ''a'') (snd (Subscribe (ChanRef 1) (Cid ''a'') new_watcher)))
     \<noteq> Some ErrNotFound \<and>
   subs_at (subs (snd (Unsubscribe (ChanRef 1) (Cid ''a'')
                  (snd (Subscribe (ChanRef 1) (Cid ''a'') new_watcher))))) (Cid ''a'') = [] \<and>
   subs (snd (Unsubscribe (ChanRef 1) (Cid ''a'')
                  (snd (Subscribe (ChanRef 1) (Cid ''a'') new_watcher)))) (Cid ''a'') = None \<and>
   Cid ''b'' \<noteq> Cid ''a'' \<and>
   subs (snd (Unsubscribe (ChanRef 1) (Cid ''a'')
                  (snd (Subscribe (ChanRef 1) (Cid ''a'') new_watcher)))) (Cid ''b'')
     = subs (snd (Subscribe (ChanRef 1) (Cid ''a'') new_watcher)) (Cid ''b'')"
  using Unsubscribe_removes_one
          [of "ChanRef 1" "Cid ''a''"
              "run_calls [CallSubscribe (ChanRef 1) (Cid ''a''), CallSubscribe (ChanRef 2) (Cid ''a''),
                          CallSubscribe (ChanRef 3) (Cid ''a'')] new_watcher"]
        Unsubscribe_removes_one
          [of "ChanRef 1" "Cid ''a''" "snd (Subscribe (ChanRef 1) (Cid ''a'') new_watcher)"]
  by (simp add: reg_eval)

subsection \<open>The registry invariant\<close>

text \<open>
  Claim C3. After any sequence of \<open>Subscribe\<close> and \<open>Unsubscribe\<close> calls on a new watcher,
  every identifier that has an entry has a non-empty list, and no channel occurs twice in
  that list.
\<close>

theorem registry_invariant:
  "subs (run_calls cs new_watcher) k = Some xs \<Longrightarrow> xs \<noteq> [] \<and> distinct xs"
  using run_calls_reg_ok [OF new_watcher_reg_ok, of cs] by (simp add: reg_ok_def)

text \<open>A run with a refused duplicate and one removal, ending in the entry 3, 2 for \<open>a\<close>.\<close>

theorem registry_invariant_witness:
  "subs (run_calls [CallSubscribe (ChanRef 1) (Cid ''a''), CallSubscribe (ChanRef 2) (Cid ''a''),
                    CallSubscribe (ChanRef 3) (Cid ''a''), CallSubscribe (ChanRef 2) (Cid ''a''),
                    CallUnsubscribe (ChanRef 1) (Cid ''a'')] new_watcher) (Cid ''a'')
     = Some [ChanRef 3, ChanRef 2] \<and>
   [ChanRef 3, ChanRef 2] \<noteq> [] \<and> distinct [ChanRef 3, ChanRef 2]"
proof -
  have h: "subs (run_calls [CallSubscribe (ChanRef 1) (Cid ''a''), CallSubscribe (ChanRef 2) (Cid ''a''),
                    CallSubscribe (ChanRef 3) (Cid ''a''), CallSubscribe (ChanRef 2) (Cid ''a''),
                    CallUnsubscribe (ChanRef 1) (Cid ''a'')] new_watcher) (Cid ''a'')
     = Some [ChanRef 3, ChanRef 2]"
    by (simp add: reg_eval)
  from h registry_invariant [OF h] show ?thesis by simp
qed

subsection \<open>A successful Subscribe\<close>

text \<open>
  Claim C4. \<open>Subscribe\<close> of a pair that is not in the registry returns nil, and afterwards
  the identifier's list is its old list followed by the channel (the one-element list when
  the identifier had no entry); the entries of all other identifiers and the other fields
  of the watcher are as before.
\<close>

theorem Subscribe_appends:
  "ch \<notin> set (subs_at (subs dw) k) \<Longrightarrow>
     fst (Subscribe ch k dw) = None \<and>
     subs (snd (Subscribe ch k dw)) k = Some (subs_at (subs dw) k @ [ch]) \<and>
     (subs dw k = None \<longrightarrow> subs (snd (Subscribe ch k dw)) k = Some [ch]) \<and>
     (\<forall>k'. k' \<noteq> k \<longrightarrow> subs (snd (Subscribe ch k dw)) k' = subs dw k') \<and>
     snd (Subscribe ch k dw) = dw\<lparr>subs := subs (snd (Subscribe ch k dw))\<rparr>"
  by (simp add: Subscribe_def scan_active_set subs_at_None)

text \<open>Channel 2 is appended after channel 1 on \<open>a\<close>, and opens the list of \<open>b\<close>.\<close>

theorem Subscribe_appends_witness:
  "ChanRef 2 \<notin> set (subs_at (subs (snd (Subscribe (ChanRef 1) (Cid ''a'') new_watcher))) (Cid ''a'')) \<and>
   fst (Subscribe (ChanRef 2) (Cid ''a'') (snd (Subscribe (ChanRef 1) (Cid ''a'') new_watcher))) = None \<and>
   subs (snd (Subscribe (ChanRef 2) (Cid ''a'') (snd (Subscribe (ChanRef 1) (Cid ''a'') new_watcher))))
        (Cid ''a'') = Some [ChanRef 1, ChanRef 2] \<and>
   subs (snd (Subscribe (ChanRef 1) (Cid ''a'') new_watcher)) (Cid ''b'') = None \<and>
   ChanRef 2 \<notin> set (subs_at (subs (snd (Subscribe (ChanRef 1) (Cid ''a'') new_watcher))) (Cid ''b'')) \<and>
   subs (snd (Subscribe (ChanRef 2) (Cid ''b'') (snd (Subscribe (ChanRef 1) (Cid ''a'') new_watcher))))
        (Cid ''b'') = Some [ChanRef 2] \<and>
   Cid ''a'' \<noteq> Cid ''b'' \<and>
   subs (snd (Subscribe (ChanRef 2) (Cid ''b'') (snd (Subscribe (ChanRef 1) (Cid ''a'') new_watcher))))
        (Cid ''a'') = Some [ChanRef 1]"
  using Subscribe_appends
          [of "ChanRef 2" "snd (Subscribe (ChanRef 1) (Cid ''a'') new_watcher)" "Cid ''a''"]
        Subscribe_appends
          [of "ChanRef 2" "snd (Subscribe (ChanRef 1) (Cid ''a'') new_watcher)" "Cid ''b''"]
  by (simp add: reg_eval)

subsection \<open>Nothing changes on an error\<close>

text \<open>
  Claim C10. When \<open>Subscribe\<close> or \<open>Unsubscribe\<close> returns an error (which is then
  \<open>ErrActiveSubscription\<close>, respectively \<open>ErrNotFound\<close>), the watcher after the call is the
  watcher before it.
\<close>

theorem registry_error_atomic:
  "(fst (Subscribe ch k dw) \<noteq> None \<longrightarrow>
      fst (Subscribe ch k dw) = Some ErrActiveSubscription \<and> snd (Subscribe ch k dw) = dw) \<and>
   (fst (Unsubscribe ch k dw) \<noteq> None \<longrightarrow>
      fst (Unsubscribe ch k dw) = Some ErrNotFound \<and> snd (Unsubscribe ch k dw) = dw)"
  by (auto simp: Subscribe_def Unsubscribe_def Let_def split: option.splits if_splits)

text \<open>A duplicate \<open>Subscribe\<close> and an \<open>Unsubscribe\<close> of a channel that never subscribed.\<close>

theorem registry_error_atomic_witness:
  "fst (Subscribe (ChanRef 1) (Cid ''a'') (snd (Subscribe (ChanRef 1) (Cid ''a'') new_watcher))) \<noteq> None \<and>
   snd (Subscribe (ChanRef 1) (Cid ''a'') (snd (Subscribe (ChanRef 1) (Cid ''a'') new_watcher)))
     = snd (Subscribe (ChanRef 1) (Cid ''a'') new_watcher) \<and>
   fst (Unsubscribe (ChanRef 2) (Cid ''a'') (snd (Subscribe (ChanRef 1) (Cid ''a'') new_watcher))) \<noteq> None \<and>
   snd (Unsubscribe (ChanRef 2) (Cid ''a'') (snd (Subscribe (ChanRef 1) (Cid ''a'') new_watcher)))
     = snd (Subscribe (ChanRef 1) (Cid ''a'') new_watcher)"
proof -
  have h1: "fst (Subscribe (ChanRef 1) (Cid ''a'') (snd (Subscribe (ChanRef 1) (Cid ''a'') new_watcher))) \<noteq> None"
    by (simp add: reg_eval)
  have h2: "fst (Unsubscribe (ChanRef 2) (Cid ''a'') (snd (Subscribe (ChanRef 1) (Cid ''a'') new_watcher))) \<noteq> None"
    by (simp add: reg_eval)
  from h1 h2
    registry_error_atomic [of "ChanRef 1" "Cid ''a''" "snd (Subscribe (ChanRef 1) (Cid ''a'') new_watcher)"]
    registry_error_atomic [of "ChanRef 2" "Cid ''a''" "snd (Subscribe (ChanRef 1) (Cid ''a'') new_watcher)"]
  show ?thesis by blast
qed
section \<open>Properties of the background task\<close>

subsection \<open>The non-blocking send\<close>

lemma try_send_closed: "chan_closed h c \<Longrightarrow> try_send h c = (SendOnClosed, h)"
  by (cases c) simp_all

lemma try_send_open:
  "\<not> chan_closed h c \<Longrightarrow>
     fst (try_send h c) = (if can_accept h c then Sent else NotReady)"
  by (cases c) auto

lemma try_send_not_ready: "fst (try_send h c) = NotReady \<Longrightarrow> snd (try_send h c) = h"
  by (cases c) (auto split: if_splits)

lemma try_send_keeps_closed: "chan_closed (snd (try_send h c)) c' = chan_closed h c'"
  by (cases c; cases c') auto

lemma try_send_other: "c' \<noteq> c \<Longrightarrow> can_accept (snd (try_send h c)) c' = can_accept h c'"
  by (cases c; cases c') auto

lemma send_loop_open:
  "\<forall>c\<in>set xs. \<not> chan_closed h c \<Longrightarrow>
     \<not> fst (send_loop xs h) \<and>
     attempts (fst (snd (send_loop xs h))) = xs \<and>
     length (fst (snd (send_loop xs h))) = length xs \<and>
     (\<forall>a\<in>set (fst (snd (send_loop xs h))). \<exists>c. a = Send c \<or> a = Slow c)"
proof (induction xs arbitrary: h)
  case Nil
  then show ?case by simp
next
  case (Cons s rest)
  obtain r h' where ts: "try_send h s = (r, h')" by (cases "try_send h s")
  from Cons.prems have "\<not> chan_closed h s" by simp
  with ts have r: "r = Sent \<or> r = NotReady"
    using try_send_open [of h s] by (auto split: if_splits)
  have "\<forall>c\<in>set rest. \<not> chan_closed h' c"
    using Cons.prems ts try_send_keeps_closed [of h s] by auto
  from Cons.IH [OF this] r ts show ?case
    by (auto split: prod.splits)
qed

lemma send_loop_distinct:
  "distinct xs \<Longrightarrow> \<forall>c\<in>set xs. \<not> chan_closed h c \<Longrightarrow>
     fst (snd (send_loop xs h)) = map (attempt_of h) xs"
proof (induction xs arbitrary: h)
  case Nil
  then show ?case by simp
next
  case (Cons s rest)
  obtain r h' where ts: "try_send h s = (r, h')" by (cases "try_send h s")
  from Cons.prems have op: "\<not> chan_closed h s" by simp
  with ts have r: "r = (if can_accept h s then Sent else NotReady)"
    using try_send_open [of h s] by simp
  have closed': "\<forall>c\<in>set rest. \<not> chan_closed h' c"
    using Cons.prems ts try_send_keeps_closed [of h s] by auto
  from Cons.prems have d: "distinct rest" by simp
  have "attempt_of h' c = attempt_of h c" if "c \<in> set rest" for c
  proof -
    from that Cons.prems(1) have "c \<noteq> s" by auto
    from try_send_other [OF this, of h] ts show ?thesis by (simp add: attempt_of_def)
  qed
  then have "map (attempt_of h') rest = map (attempt_of h) rest" by simp
  with Cons.IH [OF d closed'] r ts show ?case
    by (auto simp: attempt_of_def split: prod.splits)
qed

subsection \<open>Fanout of one update\<close>

text \<open>
  Claim C6 says that every update leads to one send attempt for each channel registered
  for its identifier, with no error. That fails when a subscriber has closed its channel
  and is still registered: the send on the closed channel panics, and the channels after
  it in the list get no attempt. Here channel 1 is closed, and channel 2 is never tried.
\<close>

theorem fanout_closed_channel_counterexample:
  "closed_first_registry (Cid ''a'') = Some [ChanRef 1, ChanRef 2] \<and>
   fanout closed_first_registry (Cid ''a'') closed_first_heap
     = (True, [Lookup (Cid ''a''), PanicSend (ChanRef 1)], closed_first_heap) \<and>
   attempts [Lookup (Cid ''a''), PanicSend (ChanRef 1)] \<noteq> [ChanRef 1, ChanRef 2]"
  by (simp add: closed_first_registry_def closed_first_heap_def fanout_def)

text \<open>
  Claim C6, amended. An update whose identifier has no entry leads to the lookup and to
  nothing else. For an identifier with an entry, if none of its channels is closed, the
  fanout does not panic and tries every channel of the list once, in order, each attempt
  being a delivery or a skip; when no channel occurs twice in the list (as in every
  registry built by \<open>Subscribe\<close> and \<open>Unsubscribe\<close>), a channel gets the signal exactly when
  it could accept a value before the update, whatever the other channels could.
\<close>

theorem fanout_attempts_each:
  "(m k = None \<longrightarrow> fanout m k h = (False, [Lookup k], h)) \<and>
   (m k = Some xs \<and> (\<forall>c\<in>set xs. \<not> chan_closed h c) \<longrightarrow>
      \<not> fst (fanout m k h) \<and>
      hd (fst (snd (fanout m k h))) = Lookup k \<and>
      attempts (fst (snd (fanout m k h))) = xs \<and>
      length (fst (snd (fanout m k h))) = Suc (length xs) \<and>
      (\<forall>a\<in>set (tl (fst (snd (fanout m k h)))). \<exists>c. a = Send c \<or> a = Slow c) \<and>
      (distinct xs \<longrightarrow> fst (snd (fanout m k h)) = Lookup k # map (attempt_of h) xs))"
proof (intro conjI impI)
  assume "m k = None"
  then show "fanout m k h = (False, [Lookup k], h)" by (simp add: fanout_def)
next
  assume a: "m k = Some xs \<and> (\<forall>c\<in>set xs. \<not> chan_closed h c)"
  then have f: "fanout m k h =
      (fst (send_loop xs h), Lookup k # fst (snd (send_loop xs h)), snd (snd (send_loop xs h)))"
    by (simp add: fanout_def split: prod.splits)
  from a have op: "\<forall>c\<in>set xs. \<not> chan_closed h c" by simp
  note sl = send_loop_open [OF op]
  from f sl show "\<not> fst (fanout m k h)" by simp
  from f show "hd (fst (snd (fanout m k h))) = Lookup k" by simp
  from f sl show "attempts (fst (snd (fanout m k h))) = xs" by simp
  from f sl show "length (fst (snd (fanout m k h))) = Suc (length xs)" by simp
  from f sl show "\<forall>a\<in>set (tl (fst (snd (fanout m k h)))). \<exists>c. a = Send c \<or> a = Slow c" by simp
  assume "distinct xs"
  from f send_loop_distinct [OF this op]
  show "fst (snd (fanout m k h)) = Lookup k # map (attempt_of h) xs" by simp
qed

text \<open>
  A full channel and a nil channel are skipped, and the two channels after them still
  get their signal.
\<close>

theorem fanout_attempts_each_witness:
  "full_first_registry (Cid ''b'') = None \<and>
   fanout full_first_registry (Cid ''b'') full_first_heap = (False, [Lookup (Cid ''b'')], full_first_heap) \<and>
   full_first_registry (Cid ''a'') = Some [ChanRef 1, NilChan, ChanRef 2, ChanRef 3] \<and>
   \<not> chan_closed full_first_heap (ChanRef 1) \<and> \<not> chan_closed full_first_heap NilChan \<and>
   \<not> chan_closed full_first_heap (ChanRef 2) \<and> \<not> chan_closed full_first_heap (ChanRef 3) \<and>
   distinct [ChanRef 1, NilChan, ChanRef 2, ChanRef 3] \<and>
   fst (snd (fanout full_first_registry (Cid ''a'') full_first_heap))
     = [Lookup (Cid ''a''), Slow (ChanRef 1), Slow NilChan, Send (ChanRef 2), Send (ChanRef 3)]"
proof -
  have h1: "full_first_registry (Cid ''b'') = None"
    by (simp add: full_first_registry_def)
  have h2: "full_first_registry (Cid ''a'') = Some [ChanRef 1, NilChan, ChanRef 2, ChanRef 3]"
    by (simp add: full_first_registry_def)
  have h3: "\<forall>c\<in>set [ChanRef 1, NilChan, ChanRef 2, ChanRef 3]. \<not> chan_closed full_first_heap c"
    by (simp add: full_first_heap_def)
  have h4: "distinct [ChanRef 1, NilChan, ChanRef 2, ChanRef 3]" by simp
  have e: "map (attempt_of full_first_heap) [ChanRef 1, NilChan, ChanRef 2, ChanRef 3]
             = [Slow (ChanRef 1), Slow NilChan, Send (ChanRef 2), Send (ChanRef 3)]"
    by (simp add: attempt_of_def full_first_heap_def)
  from h1 h2 h3 h4 e
    fanout_attempts_each [of full_first_registry "Cid ''b''" full_first_heap "[]"]
    fanout_attempts_each [of full_first_registry "Cid ''a''" full_first_heap
                             "[ChanRef 1, NilChan, ChanRef 2, ChanRef 3]"]
  show ?thesis by simp
qed

subsection \<open>The retry loop\<close>

lemma reconnect_fail:
  "fails cb n \<Longrightarrow> reconnect cb n tr = reconnect cb (Suc n) (tr @ failed_attempt cb n)"
  by (subst reconnect.simps) (simp add: fails_def failed_attempt_def split: sum.splits)

lemma reconnect_ok:
  "createUpdateChan cb n = Inr c \<Longrightarrow> reconnect cb n tr = Some (tr @ [Create n], c, Suc n)"
  by (subst reconnect.simps) simp

lemma reconnect_after_failures:
  "(\<forall>i<k. fails cb (n + i)) \<Longrightarrow> createUpdateChan cb (n + k) = Inr c \<Longrightarrow>
     reconnect cb n tr = Some (tr @ retries cb n k @ [Create (n + k)], c, Suc (n + k))"
proof (induction k arbitrary: n tr)
  case 0
  then show ?case by (simp add: reconnect_ok)
next
  case (Suc k)
  from Suc.prems(1) have f: "fails cb n" by force
  from Suc.prems(1) have "\<forall>i<k. fails cb (Suc n + i)" by force
  moreover from Suc.prems(2) have "createUpdateChan cb (Suc n + k) = Inr c" by simp
  ultimately have "reconnect cb (Suc n) (tr @ failed_attempt cb n)
      = Some ((tr @ failed_attempt cb n) @ retries cb (Suc n) k @ [Create (Suc n + k)], c,
              Suc (Suc n + k))"
    by (rule Suc.IH)
  with f show ?case by (simp add: reconnect_fail)
qed

lemma reconnect_Some_succeeds:
  assumes "reconnect cb n tr = Some r"
  shows "\<exists>k. \<not> fails cb (n + k)"
proof (rule reconnect.raw_induct [where P = "\<lambda>cb n tr r. \<exists>k. \<not> fails cb (n + k)", OF _ assms])
  fix rec :: "(nat \<Rightarrow> create_result) \<Rightarrow> nat \<Rightarrow> action list \<Rightarrow> (action list \<times> nat \<times> nat) option"
    and cb n tr r
  assume ih: "\<And>cb n tr r. rec cb n tr = Some r \<Longrightarrow> \<exists>k. \<not> fails cb (n + k)"
    and body: "(case createUpdateChan cb n of
        Inl err \<Rightarrow>
          rec cb (Suc n)
            (tr @ [Create n, Warnf (''reconstructing updates channel: '' @ err), Sleep 30])
      | Inr c \<Rightarrow> Some (tr @ [Create n], c, Suc n)) = Some r"
  show "\<exists>k. \<not> fails cb (n + k)"
  proof (cases "fails cb n")
    case False
    then have "\<not> fails cb (n + 0)" by simp
    then show ?thesis by blast
  next
    case True
    with body obtain tr' where "rec cb (Suc n) tr' = Some r"
      by (auto simp: fails_def split: sum.splits)
    from ih [OF this] obtain k where "\<not> fails cb (Suc n + k)" by blast
    then have "\<not> fails cb (n + Suc k)" by simp
    then show ?thesis by blast
  qed
qed

lemma reconnect_never: "(\<forall>i. fails cb (n + i)) \<Longrightarrow> reconnect cb n tr = None"
  using reconnect_Some_succeeds [of cb n tr] by (cases "reconnect cb n tr") auto

subsection \<open>A closed updates channel\<close>

lemma iteration_reconnects:
  assumes "\<forall>i<k. fails cb (calls st + i)" and "createUpdateChan cb (calls st + k) = Inr c"
  shows "iteration cb m (RecvClosed False) st =
           process m zero_DealInfo
             (closed_warning st @ retries cb (calls st) k @ [Create (calls st + k)])
             (st\<lparr>conn := c, calls := Suc (calls st + k)\<rparr>)"
  using reconnect_after_failures [OF assms, of "closed_warning st"]
  by (simp add: closed_warning_def)

lemma process_trace:
  "step_trace (process m di tr st) = tr @ fst (snd (fanout m (ProposalCid di) (heap st)))"
  by (simp add: process_def split: prod.splits bool.splits)

lemma fanout_hd: "hd (fst (snd (fanout m k h))) = Lookup k"
  by (simp add: fanout_def split: option.splits prod.splits)

lemma fanout_Lookup: "Lookup k \<in> set (fst (snd (fanout m k h)))"
  by (simp add: fanout_def split: option.splits prod.splits)

text \<open>
  Claim C8. When the updates channel is found closed and the context is not cancelled,
  the task warns, calls the cleanup function of the broken connection, and then calls
  \<^verbatim>\<open>createUpdateChan\<close> again and again: if the first \<open>k\<close> of these calls fail and the next one
  succeeds, the trace holds \<open>k\<close> failed rounds, each of them the call, a warning and a sleep
  of 30 seconds, and then the successful call; if every call fails, the task never
  leaves the loop. When the channel is found closed and the context is cancelled, the
  task returns: it calls the cleanup function, closes \<^verbatim>\<open>closeFinished\<close>, and makes no call of
  \<^verbatim>\<open>createUpdateChan\<close>.
\<close>

theorem upstream_closure_handling:
  "((\<forall>i<k. fails cb (calls st + i)) \<and> createUpdateChan cb (calls st + k) = Inr c \<longrightarrow>
      step_trace (iteration cb m (RecvClosed False) st)
        = [Warnf ''updates channel closed unexpectedly'', Cls (conn st)]
          @ retries cb (calls st) k @ [Create (calls st + k)]
          @ fst (snd (fanout m zero_cid (heap st)))) \<and>
   ((\<forall>i. fails cb (calls st + i)) \<longrightarrow>
      iteration cb m (RecvClosed False) st
        = Never [Warnf ''updates channel closed unexpectedly'', Cls (conn st)]) \<and>
   (fails cb n \<longrightarrow>
      (\<exists>err. failed_attempt cb n
         = [Create n, Warnf (''reconstructing updates channel: '' @ err), Sleep 30])) \<and>
   run_loop cb m (RecvClosed True # es) st = Exited [Cls (conn st), CloseFinished] (heap st)"
proof (intro conjI impI)
  assume "(\<forall>i<k. fails cb (calls st + i)) \<and> createUpdateChan cb (calls st + k) = Inr c"
  then have a: "\<forall>i<k. fails cb (calls st + i)"
    and b: "createUpdateChan cb (calls st + k) = Inr c" by simp_all
  have "iteration cb m (RecvClosed False) st =
           process m zero_DealInfo
             (closed_warning st @ retries cb (calls st) k @ [Create (calls st + k)])
             (st\<lparr>conn := c, calls := Suc (calls st + k)\<rparr>)"
    using a b by (rule iteration_reconnects)
  then show "step_trace (iteration cb m (RecvClosed False) st)
        = [Warnf ''updates channel closed unexpectedly'', Cls (conn st)]
          @ retries cb (calls st) k @ [Create (calls st + k)]
          @ fst (snd (fanout m zero_cid (heap st)))"
    by (simp add: process_trace zero_DealInfo_def closed_warning_def)
next
  assume "\<forall>i. fails cb (calls st + i)"
  then have "reconnect cb (calls st)
      [Warnf ''updates channel closed unexpectedly'', Cls (conn st)] = None"
    by (rule reconnect_never)
  then show "iteration cb m (RecvClosed False) st
        = Never [Warnf ''updates channel closed unexpectedly'', Cls (conn st)]"
    by simp
next
  assume "fails cb n"
  then show "\<exists>err. failed_attempt cb n
         = [Create n, Warnf (''reconstructing updates channel: '' @ err), Sleep 30]"
    by (auto simp: fails_def failed_attempt_def split: sum.splits)
next
  show "run_loop cb m (RecvClosed True # es) st = Exited [Cls (conn st), CloseFinished] (heap st)"
    by (simp add: deferred_def)
qed

text \<open>The equations that evaluate the task on the concrete inputs.\<close>

lemmas daemon_eval = createUpdateChan_def fails_def failed_attempt_def flaky_builder_def
  refusing_builder_def connected_def zero_registry_def full_first_heap_def fanout_def
  zero_cid_def new_watcher_def

text \<open>Two failed rounds before the third call connects; and a node that never accepts.\<close>

theorem upstream_closure_handling_witness:
  "fails flaky_builder (calls connected + 0) \<and> fails flaky_builder (calls connected + 1) \<and>
   createUpdateChan flaky_builder (calls connected + 2) = Inr 3 \<and>
   step_trace (iteration flaky_builder zero_registry (RecvClosed False) connected)
     = [Warnf ''updates channel closed unexpectedly'', Cls 7,
        Create 1, Warnf ''reconstructing updates channel: creating lotus client: refused'', Sleep 30,
        Create 2,
        Warnf ''reconstructing updates channel: creating lotus deal updates channel: busy'',
        Sleep 30,
        Create 3,
        Lookup zero_cid, Slow (ChanRef 1), Send (ChanRef 2)] \<and>
   (\<forall>i. fails refusing_builder (calls connected + i)) \<and>
   iteration refusing_builder zero_registry (RecvClosed False) connected
     = Never [Warnf ''updates channel closed unexpectedly'', Cls 7] \<and>
   fails flaky_builder 1 \<and>
   failed_attempt flaky_builder 1
     = [Create 1, Warnf ''reconstructing updates channel: creating lotus client: refused'', Sleep 30]"
proof -
  have h1: "\<forall>i<2. fails flaky_builder (calls connected + i)"
    by (simp add: daemon_eval less_Suc_eq numeral_2_eq_2)
  have h2: "createUpdateChan flaky_builder (calls connected + 2) = Inr 3"
    by (simp add: daemon_eval)
  have h3: "\<forall>i. fails refusing_builder (calls connected + i)"
    by (simp add: daemon_eval)
  have h4: "fails flaky_builder 1" by (simp add: daemon_eval)
  have r: "retries flaky_builder (calls connected) 2
      = [Create 1, Warnf ''reconstructing updates channel: creating lotus client: refused'', Sleep 30,
         Create 2,
         Warnf ''reconstructing updates channel: creating lotus deal updates channel: busy'',
         Sleep 30]"
    by (simp add: daemon_eval numeral_2_eq_2)
  have f: "fst (snd (fanout zero_registry zero_cid (heap connected)))
      = [Lookup zero_cid, Slow (ChanRef 1), Send (ChanRef 2)]"
    by (simp add: daemon_eval)
  have c: "conn connected = 7" "calls connected + 2 = 3" by (simp_all add: connected_def)
  from h1 h2 h3 h4 r f c
    upstream_closure_handling [of 2 flaky_builder connected 3 zero_registry 1 "[]"]
    upstream_closure_handling [of 0 refusing_builder connected 0 zero_registry 1 "[]"]
  show ?thesis by (simp add: failed_attempt_def createUpdateChan_def flaky_builder_def)
qed

subsection \<open>The record processed after a reconnect\<close>

text \<open>
  Claim C9. When the updates channel was found closed and the retry loop has succeeded,
  the same pass through the loop body goes on to process the zero record: its trace is
  the trace of the reconnect followed by the trace of a pass that received the zero
  record, so it holds a lookup of the zero identifier.
\<close>

theorem stale_record_fallthrough:
  "(\<forall>i<k. fails cb (calls st + i)) \<and> createUpdateChan cb (calls st + k) = Inr c \<Longrightarrow>
     iteration cb m (RecvClosed False) st
       = process m zero_DealInfo
           ([Warnf ''updates channel closed unexpectedly'', Cls (conn st)]
            @ retries cb (calls st) k @ [Create (calls st + k)])
           (st\<lparr>conn := c, calls := Suc (calls st + k)\<rparr>) \<and>
     ProposalCid zero_DealInfo = zero_cid \<and>
     step_trace (iteration cb m (RecvClosed False) st)
       = ([Warnf ''updates channel closed unexpectedly'', Cls (conn st)]
            @ retries cb (calls st) k @ [Create (calls st + k)])
         @ step_trace (iteration cb m (Recv zero_DealInfo) st) \<and>
     Lookup zero_cid \<in> set (step_trace (iteration cb m (RecvClosed False) st))"
proof -
  assume "(\<forall>i<k. fails cb (calls st + i)) \<and> createUpdateChan cb (calls st + k) = Inr c"
  then have a: "\<forall>i<k. fails cb (calls st + i)"
    and b: "createUpdateChan cb (calls st + k) = Inr c" by simp_all
  have it: "iteration cb m (RecvClosed False) st
       = process m zero_DealInfo
           ([Warnf ''updates channel closed unexpectedly'', Cls (conn st)]
            @ retries cb (calls st) k @ [Create (calls st + k)])
           (st\<lparr>conn := c, calls := Suc (calls st + k)\<rparr>)"
    using iteration_reconnects [OF a b, of m] by (simp add: closed_warning_def)
  have z: "ProposalCid zero_DealInfo = zero_cid" by (simp add: zero_DealInfo_def)
  have tr: "step_trace (iteration cb m (RecvClosed False) st)
       = ([Warnf ''updates channel closed unexpectedly'', Cls (conn st)]
            @ retries cb (calls st) k @ [Create (calls st + k)])
         @ step_trace (iteration cb m (Recv zero_DealInfo) st)"
    unfolding it by (simp add: process_trace)
  have "Lookup zero_cid \<in> set (step_trace (iteration cb m (Recv zero_DealInfo) st))"
    by (simp add: process_trace z fanout_Lookup)
  with tr have "Lookup zero_cid \<in> set (step_trace (iteration cb m (RecvClosed False) st))"
    by simp
  with it z tr show ?thesis by blast
qed

text \<open>With two subscribers of the zero identifier, the second of them is signalled.\<close>

theorem stale_record_fallthrough_witness:
  "fails flaky_builder (calls connected + 0) \<and> fails flaky_builder (calls connected + 1) \<and>
   createUpdateChan flaky_builder (calls connected + 2) = Inr 3 \<and>
   (\<exists>h. iteration flaky_builder zero_registry (RecvClosed False) connected
     = Next [Warnf ''updates channel closed unexpectedly'', Cls 7,
             Create 1, Warnf ''reconstructing updates channel: creating lotus client: refused'',
             Sleep 30,
             Create 2,
             Warnf ''reconstructing updates channel: creating lotus deal updates channel: busy'',
             Sleep 30,
             Create 3,
             Lookup zero_cid, Slow (ChanRef 1), Send (ChanRef 2)]
            \<lparr>conn = 3, calls = 4, heap = h\<rparr>) \<and>
   Lookup zero_cid \<in> set (step_trace (iteration flaky_builder zero_registry (RecvClosed False) connected))"
proof -
  have h: "(\<forall>i<2. fails flaky_builder (calls connected + i)) \<and>
    createUpdateChan flaky_builder (calls connected + 2) = Inr 3"
    by (simp add: daemon_eval less_Suc_eq numeral_2_eq_2)
  have r: "retries flaky_builder (calls connected) 2
      = [Create 1, Warnf ''reconstructing updates channel: creating lotus client: refused'', Sleep 30,
         Create 2,
         Warnf ''reconstructing updates channel: creating lotus deal updates channel: busy'',
         Sleep 30]"
    by (simp add: daemon_eval numeral_2_eq_2)
  note t = stale_record_fallthrough [OF h, of zero_registry]
  from t have l: "Lookup zero_cid \<in> set (step_trace (iteration flaky_builder zero_registry (RecvClosed False) connected))"
    by blast
  from t have "iteration flaky_builder zero_registry (RecvClosed False) connected
       = process zero_registry zero_DealInfo
           ([Warnf ''updates channel closed unexpectedly'', Cls (conn connected)]
            @ retries flaky_builder (calls connected) 2 @ [Create (calls connected + 2)])
           (connected\<lparr>conn := 3, calls := Suc (calls connected + 2)\<rparr>)"
    by blast
  then have "\<exists>h. iteration flaky_builder zero_registry (RecvClosed False) connected
     = Next [Warnf ''updates channel closed unexpectedly'', Cls 7,
             Create 1, Warnf ''reconstructing updates channel: creating lotus client: refused'',
             Sleep 30,
             Create 2,
             Warnf ''reconstructing updates channel: creating lotus deal updates channel: busy'',
             Sleep 30,
             Create 3,
             Lookup zero_cid, Slow (ChanRef 1), Send (ChanRef 2)]
            \<lparr>conn = 3, calls = 4, heap = h\<rparr>"
    unfolding r
    by (simp add: process_def zero_DealInfo_def connected_def zero_registry_def
        full_first_heap_def fanout_def zero_cid_def new_watcher_def)
  moreover have "fails flaky_builder (calls connected + 0)"
    and "fails flaky_builder (calls connected + 1)"
    and "createUpdateChan flaky_builder (calls connected + 2) = Inr 3"
    by (simp_all add: daemon_eval)
  ultimately show ?thesis using l by blast
qed

subsection \<open>How the task ends\<close>

lemma retries_no_signal: "CloseFinished \<notin> set (retries cb n k)"
  by (induction k arbitrary: n)
     (auto simp: failed_attempt_def split: sum.splits)

lemma send_loop_no_signal: "send_loop xs h = (p, tr, h') \<Longrightarrow> CloseFinished \<notin> set tr"
proof (induction xs arbitrary: h p tr h')
  case Nil
  then show ?case by simp
next
  case (Cons s rest)
  then show ?case
    by (fastforce split: prod.splits send_result.splits)
qed

lemma fanout_no_signal: "CloseFinished \<notin> set (fst (snd (fanout m k h)))"
  using send_loop_no_signal
  by (fastforce simp: fanout_def split: option.splits prod.splits)

lemma process_not_Return: "process m di tr st \<noteq> Return tr'"
  by (simp add: process_def split: prod.splits bool.splits)

lemma iteration_Return: "iteration cb m e st = Return tr \<Longrightarrow> tr = []"
  by (cases e) (auto simp: process_not_Return split: if_splits option.splits)

lemma reconnect_no_signal:
  assumes "reconnect cb n tr = Some r"
  shows "CloseFinished \<notin> set tr \<longrightarrow> CloseFinished \<notin> set (fst r)"
proof (rule reconnect.raw_induct
    [where P = "\<lambda>cb n tr r. CloseFinished \<notin> set tr \<longrightarrow> CloseFinished \<notin> set (fst r)",
      OF _ assms])
  fix rec :: "(nat \<Rightarrow> create_result) \<Rightarrow> nat \<Rightarrow> action list \<Rightarrow> (action list \<times> nat \<times> nat) option"
    and cb n tr r
  assume ih: "\<And>cb n tr r. rec cb n tr = Some r \<Longrightarrow>
      CloseFinished \<notin> set tr \<longrightarrow> CloseFinished \<notin> set (fst r)"
    and body: "(case createUpdateChan cb n of
        Inl err \<Rightarrow>
          rec cb (Suc n)
            (tr @ [Create n, Warnf (''reconstructing updates channel: '' @ err), Sleep 30])
      | Inr c \<Rightarrow> Some (tr @ [Create n], c, Suc n)) = Some r"
  show "CloseFinished \<notin> set tr \<longrightarrow> CloseFinished \<notin> set (fst r)"
  proof (cases "createUpdateChan cb n")
    case (Inl err)
    with body have "rec cb (Suc n)
        (tr @ [Create n, Warnf (''reconstructing updates channel: '' @ err), Sleep 30]) = Some r"
      by simp
    from ih [OF this] show ?thesis by simp
  next
    case (Inr c)
    with body show ?thesis by auto
  qed
qed

lemma process_no_signal:
  "CloseFinished \<notin> set tr \<Longrightarrow> CloseFinished \<notin> set (step_trace (process m di tr st))"
  by (simp add: process_trace fanout_no_signal)

lemma iteration_no_signal: "CloseFinished \<notin> set (step_trace (iteration cb m e st))"
proof (cases e)
  case CtxDone
  then show ?thesis by simp
next
  case (Recv di)
  then show ?thesis by (simp add: process_no_signal)
next
  case (RecvClosed ctx_err)
  show ?thesis
  proof (cases "reconnect cb (calls st)
                [Warnf ''updates channel closed unexpectedly'', Cls (conn st)]")
    case None
    with RecvClosed show ?thesis by simp
  next
    case (Some r)
    from reconnect_no_signal [OF Some] have "CloseFinished \<notin> set (fst r)" by simp
    with RecvClosed Some show ?thesis
      by (cases r) (simp add: process_no_signal)
  qed
qed

lemma run_loop_exit:
  "run_loop cb m es st = Exited tr h \<Longrightarrow>
     \<exists>tr0 c. tr = tr0 @ [Cls c, CloseFinished] \<and> CloseFinished \<notin> set tr0"
proof (induction es arbitrary: st tr)
  case Nil
  then show ?case by simp
next
  case (Cons e es)
  show ?case
  proof (cases "iteration cb m e st")
    case (Return tr1)
    then have "tr1 = []" by (rule iteration_Return)
    with Return Cons.prems have "tr = [] @ [Cls (conn st), CloseFinished]"
      by (simp add: deferred_def)
    then show ?thesis by (metis empty_iff list.set(1))
  next
    case (Panic tr1 st')
    with Cons.prems show ?thesis by simp
  next
    case (Never tr1)
    with Cons.prems show ?thesis by simp
  next
    case (Next tr1 st')
    with Cons.prems have p: "prepend tr1 (run_loop cb m es st') = Exited tr h" by simp
    then obtain tr2 where r: "run_loop cb m es st' = Exited tr2 h" and t: "tr = tr1 @ tr2"
      by (cases "run_loop cb m es st'") auto
    from Cons.IH [OF r] obtain tr0 c
      where tr2: "tr2 = tr0 @ [Cls c, CloseFinished]" and n: "CloseFinished \<notin> set tr0"
      by blast
    from iteration_no_signal [of cb m e st] Next have "CloseFinished \<notin> set tr1" by simp
    with n have "CloseFinished \<notin> set (tr1 @ tr0)" by simp
    moreover from t tr2 have "tr = (tr1 @ tr0) @ [Cls c, CloseFinished]" by simp
    ultimately show ?thesis by blast
  qed
qed

text \<open>
  Once the first connection is made, every return of the goroutine ends with the cleanup
  function and then \<^verbatim>\<open>close(dw.closeFinished)\<close>, which happens nowhere else in the run.
\<close>

lemma startDaemon_exit_after_connect:
  assumes "createUpdateChan cb 0 = Inr c0" and "startDaemon cb m h es = Exited tr h'"
  shows "\<exists>tr0 c. tr = tr0 @ [Cls c, CloseFinished] \<and> CloseFinished \<notin> set tr0"
proof -
  from assms have p: "prepend [Create 0, Infof ''deal watcher created'']
      (run_loop cb m es \<lparr>conn = c0, calls = 1, heap = h\<rparr>) = Exited tr h'"
    by (simp add: startDaemon_def)
  then obtain tr2 where r: "run_loop cb m es \<lparr>conn = c0, calls = 1, heap = h\<rparr> = Exited tr2 h'"
    and t: "tr = [Create 0, Infof ''deal watcher created''] @ tr2"
    by (cases "run_loop cb m es \<lparr>conn = c0, calls = 1, heap = h\<rparr>") auto
  from run_loop_exit [OF r] obtain tr0 c
    where tr2: "tr2 = tr0 @ [Cls c, CloseFinished]" and n: "CloseFinished \<notin> set tr0"
    by blast
  from n have "CloseFinished \<notin> set ([Create 0, Infof ''deal watcher created''] @ tr0)" by simp
  moreover from t tr2
  have "tr = ([Create 0, Infof ''deal watcher created''] @ tr0) @ [Cls c, CloseFinished]" by simp
  ultimately show ?thesis by blast
qed
section \<open>Properties of Close\<close>

subsection \<open>The invariant of all interleavings\<close>

lemma Close_step_returns_nil: "returns_nil s \<Longrightarrow> returns_nil (Close_step g s)"
  unfolding returns_nil_def Close_step_def
  by (cases "pc s g"; cases "closeLock s") (simp_all)

lemma lock_okD: "lock_ok s \<Longrightarrow> in_crit (pc s g) = (closeLock s = Some g)"
  by (simp add: lock_ok_def)

lemma Close_step_lock_ok:
  assumes "lock_ok s"
  shows "lock_ok (Close_step g s)"
proof -
  note a = lock_okD [OF assms]
  show ?thesis
  proof (cases "pc s g")
    case NotCalled
    with a [of g] have "closeLock s \<noteq> Some g" by simp
    with NotCalled a show ?thesis
      by (simp add: lock_ok_def Close_step_def)
  next
    case (Returned e)
    with a [of g] have "closeLock s \<noteq> Some g" by simp
    with Returned a show ?thesis
      by (simp add: lock_ok_def Close_step_def)
  next
    case L104
    show ?thesis
    proof (cases "closeLock s")
      case None
      with L104 a show ?thesis
        by (simp add: lock_ok_def Close_step_def)
    next
      case (Some h)
      with L104 assms show ?thesis by (simp add: Close_step_def)
    qed
  next
    case L107
    with a [of g] have "closeLock s = Some g" by simp
    with L107 a show ?thesis
      by (simp add: lock_ok_def Close_step_def)
  next
    case L110
    with a [of g] have "closeLock s = Some g" by simp
    with L110 a show ?thesis
      by (simp add: lock_ok_def Close_step_def)
  next
    case L112
    with a [of g] have "closeLock s = Some g" by simp
    with L112 a show ?thesis
      by (simp add: lock_ok_def Close_step_def)
  next
    case L113
    with a [of g] have "closeLock s = Some g" by simp
    with L113 a show ?thesis
      by (simp add: lock_ok_def Close_step_def)
  qed
qed

lemma not_crit_step:
  assumes "\<not> in_crit (pc s g)" and "closeLock s \<noteq> None"
  shows "Close_step g s = s \<or> Close_step g s = s\<lparr>pc := (pc s)(g := L104)\<rparr>"
  using assms by (cases "pc s g") (auto simp: Close_step_def)

lemma ph0_step:
  assumes "lock_ok s" and "ph0 s"
  shows "ph0 (Close_step g s) \<or> ph1 (Close_step g s) g"
proof (cases "pc s g")
  case NotCalled
  with assms(2) show ?thesis by (simp add: ph0_def Close_step_def)
next
  case (Returned e)
  with assms(2) show ?thesis by (simp add: ph0_def Close_step_def)
next
  case L104
  with assms(2) show ?thesis
    by (cases "closeLock s") (simp_all add: ph0_def Close_step_def)
next
  case L107
  with assms(2) show ?thesis by (simp add: ph0_def Close_step_def)
next
  case L110
  with assms(2) show ?thesis by (simp add: ph0_def ph1_def Close_step_def)
next
  case L112
  with assms(2) show ?thesis by (simp add: ph0_def)
next
  case L113
  with assms(2) show ?thesis by (simp add: ph0_def)
qed

lemma ph1_step:
  assumes "lock_ok s" and "ph1 s g1"
  shows "ph1 (Close_step g s) g1 \<or> ph2 (Close_step g s) g1"
proof (cases "g = g1")
  case True
  with assms(2) show ?thesis by (simp add: ph1_def ph2_def Close_step_def)
next
  case False
  from assms(2) have p: "pc s g1 = L112" by (simp add: ph1_def)
  with lock_okD [OF assms(1), of g1] have l: "closeLock s = Some g1" by simp
  with False lock_okD [OF assms(1), of g] have n: "\<not> in_crit (pc s g)" by simp
  from l have "closeLock s \<noteq> None" by simp
  with n have "Close_step g s = s \<or> Close_step g s = s\<lparr>pc := (pc s)(g := L104)\<rparr>"
    by (rule not_crit_step)
  with assms(2) False show ?thesis by (auto simp: ph1_def)
qed

lemma ph2_step:
  assumes "lock_ok s" and "ph2 s g1"
  shows "ph2 (Close_step g s) g1 \<or> ph3 (Close_step g s) g1 []"
proof (cases "g = g1")
  case True
  from assms(2) have p: "pc s g1 = L113" by (simp add: ph2_def)
  with lock_okD [OF assms(1), of g1] have l: "closeLock s = Some g1" by simp
  have others: "pc s g' \<noteq> L110 \<and> pc s g' \<noteq> L112 \<and> pc s g' \<noteq> L113" if "g' \<noteq> g1" for g'
  proof -
    from that l lock_okD [OF assms(1), of g'] have "\<not> in_crit (pc s g')" by simp
    then show ?thesis by (cases "pc s g'") simp_all
  qed
  with True assms(2) show ?thesis
    by (simp add: ph2_def ph3_def Close_step_def close_history_def)
next
  case False
  from assms(2) have p: "pc s g1 = L113" by (simp add: ph2_def)
  with lock_okD [OF assms(1), of g1] have l: "closeLock s = Some g1" by simp
  with False lock_okD [OF assms(1), of g] have n: "\<not> in_crit (pc s g)" by simp
  from l have "closeLock s \<noteq> None" by simp
  with n have "Close_step g s = s \<or> Close_step g s = s\<lparr>pc := (pc s)(g := L104)\<rparr>"
    by (rule not_crit_step)
  with assms(2) False show ?thesis by (auto simp: ph2_def)
qed

lemma ph3_step:
  assumes "ph3 s g1 later"
  shows "ph3 (Close_step g s) g1 later \<or> ph3 (Close_step g s) g1 (later @ [g])"
proof (cases "pc s g")
  case NotCalled
  with assms show ?thesis by (simp add: ph3_def Close_step_def)
next
  case (Returned e)
  with assms show ?thesis by (simp add: ph3_def Close_step_def)
next
  case L104
  with assms show ?thesis
    by (cases "closeLock s") (simp_all add: ph3_def Close_step_def)
next
  case L107
  with assms show ?thesis by (simp add: ph3_def Close_step_def close_history_def)
next
  case L110
  with assms show ?thesis by (simp add: ph3_def)
next
  case L112
  with assms show ?thesis by (simp add: ph3_def)
next
  case L113
  with assms show ?thesis by (simp add: ph3_def)
qed

lemma Close_step_phase:
  assumes "lock_ok s" and "phase s"
  shows "phase (Close_step g s)"
proof -
  from assms(2) consider "ph0 s" | g1 where "ph1 s g1" | g1 where "ph2 s g1"
    | g1 later where "ph3 s g1 later"
    unfolding phase_def by blast
  then show ?thesis
  proof cases
    case 1
    with ph0_step [OF assms(1), of g] show ?thesis unfolding phase_def by blast
  next
    case 2
    with ph1_step [OF assms(1), of g1 g] show ?thesis unfolding phase_def by blast
  next
    case 3
    with ph2_step [OF assms(1), of g1 g] show ?thesis unfolding phase_def by blast
  next
    case 4
    with ph3_step [of s g1 later g] show ?thesis unfolding phase_def by blast
  qed
qed

lemma task_finishes_phase:
  assumes "phase s"
  shows "phase (task_finishes s)"
proof -
  from assms consider "ph0 s" | g1 where "ph1 s g1" | g1 where "ph2 s g1"
    | g1 later where "ph3 s g1 later"
    unfolding phase_def by blast
  then show ?thesis
  proof cases
    case 1
    then have "ph0 (task_finishes s)" by (simp add: ph0_def task_finishes_def)
    then show ?thesis unfolding phase_def by blast
  next
    case 2
    then have "ph1 (task_finishes s) g1" by (simp add: ph1_def task_finishes_def)
    then show ?thesis unfolding phase_def by blast
  next
    case 3
    then have "ph2 (task_finishes s) g1" by (simp add: ph2_def task_finishes_def)
    then show ?thesis unfolding phase_def by blast
  next
    case 4
    then have "ph3 (task_finishes s) g1 later" by (simp add: ph3_def task_finishes_def)
    then show ?thesis unfolding phase_def by blast
  qed
qed

lemma task_finishes_inv: "close_inv s \<Longrightarrow> close_inv (task_finishes s)"
  using task_finishes_phase [of s]
  by (simp add: close_inv_def) (simp add: lock_ok_def returns_nil_def task_finishes_def)

lemma Close_step_inv: "close_inv s \<Longrightarrow> close_inv (Close_step g s)"
  by (simp add: close_inv_def Close_step_lock_ok Close_step_returns_nil Close_step_phase)

lemma start_inv: "\<not> closed dw \<Longrightarrow> \<not> closeCtx dw \<Longrightarrow> close_inv (start dw)"
  by (simp add: close_inv_def lock_ok_def returns_nil_def phase_def ph0_def start_def)

lemma exec_inv: "close_inv s \<Longrightarrow> close_inv (exec ts s)"
proof (induction ts arbitrary: s)
  case Nil
  then show ?case by simp
next
  case (Cons t ts)
  then show ?case
    by (cases t) (simp_all add: Close_step_inv task_finishes_inv)
qed

subsection \<open>Shutdown happens once\<close>



lemma new_watcher_inv: "close_inv (start new_watcher)"
  by (rule start_inv) (simp_all add: new_watcher_def)




text \<open>The equations that evaluate an interleaving.\<close>

lemmas close_eval = Close_step_def task_finishes_def start_def new_watcher_def



subsection \<open>Without the completion signal no call returns\<close>

lemma Close_step_keeps_finished:
  "closeFinished (watcher (Close_step g s)) = closeFinished (watcher s)"
  by (cases "pc s g"; cases "closeLock s") (simp_all add: Close_step_def)

lemma exec_keeps_finished:
  "BackgroundTask \<notin> set ts \<Longrightarrow>
     closeFinished (watcher (exec ts s)) = closeFinished (watcher s)"
  by (induction ts s rule: exec.induct) (simp_all add: Close_step_keeps_finished)

lemma Close_waits_for_ever:
  assumes "BackgroundTask \<notin> set ts"
  shows "Ret g e \<notin> set (hist (exec ts (start new_watcher)))"
proof -
  let ?s = "exec ts (start new_watcher)"
  have "close_inv ?s" using new_watcher_inv by (rule exec_inv)
  then have ph: "phase ?s" by (simp add: close_inv_def)
  from assms have "closeFinished (watcher ?s) = closeFinished (watcher (start new_watcher))"
    by (rule exec_keeps_finished)
  then have nf: "\<not> closeFinished (watcher ?s)" by (simp add: start_def new_watcher_def)
  from ph consider "ph0 ?s" | g1 where "ph1 ?s g1" | g1 where "ph2 ?s g1"
    | g1 later where "ph3 ?s g1 later"
    unfolding phase_def by blast
  then show ?thesis
  proof cases
    case 1
    then show ?thesis by (simp add: ph0_def)
  next
    case 2
    then show ?thesis by (simp add: ph1_def)
  next
    case 3
    then show ?thesis by (simp add: ph2_def)
  next
    case 4
    with nf show ?thesis by (simp add: ph3_def)
  qed
qed
section \<open>A failed first connection\<close>

text \<open>
  Claim C7 says that the task releases the connection and closes the completion signal
  on every exit path, the failure of the first connection included, so that \<open>Close\<close>
  never waits for ever. The code does so on every return after the first connection
  (lemma \<open>startDaemon_exit_after_connect\<close>), but the return at line 136 comes before the
  \<^verbatim>\<open>defer\<close> statements: with a node that refuses the first connection the goroutine ends
  without closing \<^verbatim>\<open>closeFinished\<close>. Then no step of the background task closes it, and by
  lemma \<open>Close_waits_for_ever\<close> no call of \<open>Close\<close> returns: the first caller stays at the
  receive of line 113, holding the mutex, and the second at \<^verbatim>\<open>Lock\<close>.
\<close>

theorem initial_failure_blocks_Close:
  "startDaemon refusing_builder (subs new_watcher) full_first_heap [CtxDone]
     = Exited [Create 0,
               Errorf ''creating initial updates chan: creating lotus client: refused'']
         full_first_heap \<and>
   Cls 0 \<notin> set [Create 0, Errorf ''creating initial updates chan: creating lotus client: refused''] \<and>
   CloseFinished \<notin> set [Create 0,
               Errorf ''creating initial updates chan: creating lotus client: refused''] \<and>
   hist (exec two_callers_no_signal (start new_watcher)) = [SetClosed 1, Cancel 1] \<and>
   pc (exec two_callers_no_signal (start new_watcher)) 1 = L113 \<and>
   pc (exec two_callers_no_signal (start new_watcher)) 2 = L104"
  by (simp add: startDaemon_def createUpdateChan_def refusing_builder_def
      two_callers_no_signal_def close_eval)

end
